theory Spec2Isabelle
  imports Main "HOL-Library.Signed_Division" "HOL-Library.AList" "HOL-Library.Word"
begin

section \<open>The TSDB manager of pkg/storage/stores/tsdb/manager.go\<close>

text \<open>
  The manager scans the local multitenant directory at start-up (\<open>Start\<close>), turns
  write-ahead logs into one index file per table period (\<open>BuildFromWALs\<close>) and maps a
  time interval to the keys of the table periods it overlaps (\<open>indexBuckets\<close>).
  Go values are embedded as follows: \<open>model.Time\<close> (an int64 of milliseconds) and
  \<open>int64\<close> table numbers are \<open>int\<close>, with the one place where int64 arithmetic
  can wrap written out; an \<open>error\<close> result is an \<open>error option\<close> (\<open>None\<close> is
  \<open>nil\<close>); a Go map is an association list with distinct keys.
\<close>

subsection \<open>Errors\<close>

text \<open>
  \<open>ErrorString s\<close> is an error made by \<open>fmt.Errorf\<close> or \<open>errors.New\<close> with the
  text \<open>s\<close>, \<open>Wrap e msg\<close> is \<open>errors.Wrap(e, msg)\<close>.
\<close>

datatype error = ErrorString string | Wrap error string

fun Error :: "error \<Rightarrow> string" where
  "Error (ErrorString s) = s"
| "Error (Wrap e msg) = msg @ '': '' @ Error e"

subsection \<open>Decimal formatting: \<open>strconv.Itoa\<close> and the verb \<open>%d\<close>\<close>

definition digit :: "nat \<Rightarrow> char" where
  "digit d = char_of (48 + d)"

fun digits :: "nat \<Rightarrow> string" where
  "digits n = (if n < 10 then [digit n] else digits (n div 10) @ [digit (n mod 10)])"

definition Itoa :: "int \<Rightarrow> string" where
  "Itoa i = (if i < 0 then CHR ''-'' # digits (nat (- i)) else digits (nat i))"

text \<open>Reading a decimal numeral back, the inverse of \<open>digits\<close>.\<close>

definition digitVal :: "char \<Rightarrow> nat" where
  "digitVal c = of_char c - 48"

fun decimal :: "nat \<Rightarrow> string \<Rightarrow> nat" where
  "decimal acc [] = acc"
| "decimal acc (c # cs) = decimal (10 * acc + digitVal c) cs"

subsection \<open>Times and table numbers\<close>

type_synonym Time = int

text \<open>
  \<open>int64 x\<close> is the value an int64 holds after a computation whose exact result is \<open>x\<close>.
\<close>

definition int64 :: "int \<Rightarrow> int" where
  "int64 x = (x + 2 ^ 63) mod 2 ^ 64 - 2 ^ 63"

text \<open>
  \<open>t.Time().UnixNano()\<close> for a \<open>model.Time\<close> of \<open>t\<close> milliseconds: the seconds and
  nanoseconds of \<open>t\<close> recombined in int64 arithmetic, which is \<open>t\<close> times a million,
  wrapped.
\<close>

definition UnixNano :: "Time \<Rightarrow> int" where
  "UnixNano t = int64 (t * 1000000)"

text \<open>
  Modelled from the spec: \<open>config.ObjectStorageIndexRequiredPeriod\<close>, the fixed length of
  a table period (24 hours), as a \<open>time.Duration\<close> in nanoseconds.
\<close>

definition ObjectStorageIndexRequiredPeriod :: int where
  "ObjectStorageIndexRequiredPeriod = 24 * 3600 * 1000000000"

text \<open>
  The quotient of lines 263 and 264. Go's \<open>/\<close> on integers truncates toward zero, which
  is \<open>sdiv\<close>.
\<close>

definition tableNumber :: "Time \<Rightarrow> int" where
  "tableNumber t = UnixNano t sdiv ObjectStorageIndexRequiredPeriod"

subsection \<open>The table-range configuration\<close>

record PeriodicTableConfig =
  Prefix :: string

record PeriodConfig =
  IndexTables :: PeriodicTableConfig

text \<open>
  Modelled from the spec: \<open>config.TableRanges\<close> with its one operation
  \<open>ConfigForTableNumber(n) -> Config|absent\<close>. The configuration is the function
  itself; \<open>None\<close> is the \<open>nil\<close> configuration.
\<close>

type_synonym TableRanges = "int \<Rightarrow> PeriodConfig option"

definition ConfigForTableNumber :: "TableRanges \<Rightarrow> int \<Rightarrow> PeriodConfig option" where
  "ConfigForTableNumber tableRanges n = tableRanges n"

subsection \<open>\<open>indexBuckets\<close>\<close>

text \<open>
  The loop of lines 265 to 271, from the current table number \<open>cur\<close> with the keys
  \<open>res\<close> collected so far. A missing configuration returns \<open>nil\<close> and the error.
\<close>

function indexBuckets_loop ::
  "TableRanges \<Rightarrow> int \<Rightarrow> int \<Rightarrow> string list \<Rightarrow> string list \<times> error option" where
  "indexBuckets_loop tableRanges cur end res =
     (if cur \<le> end then
        (case ConfigForTableNumber tableRanges cur of
           None \<Rightarrow>
             ([], Some (ErrorString (''could not find config for table number '' @ Itoa cur)))
         | Some cfg \<Rightarrow>
             indexBuckets_loop tableRanges (cur + 1) end
               (res @ [Prefix (IndexTables cfg) @ Itoa cur]))
      else (res, None))"
  by pat_completeness auto
termination
  by (relation "measure (\<lambda>(tableRanges, cur, end, res). nat (end + 1 - cur))") auto

declare indexBuckets_loop.simps [simp del]

definition indexBuckets :: "Time \<Rightarrow> Time \<Rightarrow> TableRanges \<Rightarrow> string list \<times> error option" where
  "indexBuckets from through tableRanges =
     (let start = UnixNano from sdiv ObjectStorageIndexRequiredPeriod;
          end = UnixNano through sdiv ObjectStorageIndexRequiredPeriod
      in indexBuckets_loop tableRanges start end [])"

subsection \<open>Values handled by the manager\<close>

type_synonym Labels = "(string \<times> string) list"

type_synonym Fingerprint = "64 word"

text \<open>
  Modelled from the spec: \<open>index.ChunkMeta\<close>, a chunk's time interval (read by the
  methods \<open>From()\<close> and \<open>Through()\<close>) and a reference to its payload.
\<close>

record ChunkMeta =
  From :: Time
  Through :: Time
  Checksum :: "32 word"

type_synonym WALIdentifier = nat

text \<open>
  The composite literal of lines 225 to 228 names the two fields of a
  \<open>MultitenantTSDBIdentifier\<close>; \<open>newPrefixedIdentifier\<close> is kept as a constructor of
  its three arguments, and a \<open>TSDBFile\<close> is what \<open>NewShippableTSDBFile\<close> hands back:
  \<open>nil\<close> or a file for an identifier.
\<close>

record MultitenantTSDBIdentifier =
  id_nodeName :: string
  id_ts :: int

datatype prefixedIdentifier =
  newPrefixedIdentifier MultitenantTSDBIdentifier string string

datatype TSDBFile = nilFile | TSDBFile prefixedIdentifier

record FileInfo =
  Name :: string
  IsDir :: bool

text \<open>
  Modelled from the spec: the \<open>Builder\<close> accumulates the series of one build pass; the
  model keeps the arguments of every \<open>AddSeries\<close> call, in order.
\<close>

type_synonym Builder = "(Labels \<times> Fingerprint \<times> ChunkMeta list) list"

definition NewBuilder :: Builder where
  "NewBuilder = []"

definition AddSeries :: "Labels \<Rightarrow> Fingerprint \<Rightarrow> ChunkMeta list \<Rightarrow> Builder \<Rightarrow> Builder" where
  "AddSeries ls fp chks b = b @ [(ls, fp, chks)]"

subsection \<open>The world outside the manager\<close>

datatype level = LevelDebug | LevelInfo | LevelWarn | LevelError

text \<open>
  The values of a log line. \<open>PathOf d\<close> stands for \<open>d.Path()\<close> and \<open>Elapsed\<close> for
  a \<open>time.Since\<close> reading of the wall clock.
\<close>

datatype logval =
    S string | N int | B bool | E "error option" | PathOf prefixedIdentifier | Elapsed

type_synonym logline = "level \<times> (string \<times> logval) list"

text \<open>
  The calls the manager makes on its collaborators, with what each returned.
  \<open>NewBuilderCall pd\<close> and \<open>AddSeriesCall pd ls fp chks\<close> are \<open>NewBuilder()\<close> and
  \<open>AddSeries(ls, fp, chks)\<close> for the builder of period \<open>pd\<close>; \<open>BuildCall pd dir id err\<close>
  is its \<open>Build\<close> with the identifier it assigned; \<open>OpenCall\<close> is
  \<open>NewShippableTSDBFile\<close> and \<open>AddIndexCall\<close> is \<open>shipper.AddIndex\<close>.
\<close>

datatype call =
    NewBuilderCall string
  | AddSeriesCall string Labels Fingerprint "ChunkMeta list"
  | BuildCall string string "prefixedIdentifier option" "error option"
  | OpenCall prefixedIdentifier bool TSDBFile "error option"
  | AddIndexCall string string TSDBFile "error option"

text \<open>
  What the manager leaves behind: the lines written to \<open>m.log\<close>, the calls made, and
  how often each of the two counters of \<open>m.metrics\<close> was incremented.
\<close>

record world =
  logs :: "logline list"
  calls :: "call list"
  tsdbCreationsTotal :: nat
  tsdbCreationFailures :: nat

definition Log :: "level \<Rightarrow> (string \<times> logval) list \<Rightarrow> world \<Rightarrow> world" where
  "Log lvl keyvals w = w\<lparr>logs := logs w @ [(lvl, keyvals)]\<rparr>"

definition called :: "call \<Rightarrow> world \<Rightarrow> world" where
  "called c w = w\<lparr>calls := calls w @ [c]\<rparr>"

text \<open>
  The collaborators, none of them defined in manager.go, are parameters. Those whose
  answer may depend on what happened before (the file system after a build, the shipper)
  are given the world so far. \<open>recoverHead\<close> fills the tenant heads it is given, which
  the model keeps as the time they were created for and the series that \<open>forAll\<close> will
  visit, in visiting order.
  \<open>Builder_Set ls n v\<close> is \<open>labels.NewBuilder(ls)\<close> followed by \<open>Set(n, v)\<close> and
  \<open>Labels()\<close>, and \<open>TenantLabel\<close> is the name of the synthetic tenant label, a constant
  of the package. \<open>writeIndex\<close> and \<open>moveIndex\<close> are the two steps of \<open>Builder.Build\<close>.
  \<open>rangeOrder\<close> is the order in which a \<open>range\<close> loop visits the keys of a map.
\<close>

record tenantHeads =
  heads_start :: int
  heads_series :: "(string \<times> Labels \<times> ChunkMeta list) list"

record env =
  ReadDir :: "string \<Rightarrow> error + FileInfo list"
  Join :: "string \<Rightarrow> string \<Rightarrow> string"
  managerMultitenantDir :: "string \<Rightarrow> string"
  managerScratchDir :: "string \<Rightarrow> string"
  parseMultitenantTSDBPath :: "string \<Rightarrow> MultitenantTSDBIdentifier option"
  NewShippableTSDBFile :: "world \<Rightarrow> prefixedIdentifier \<Rightarrow> bool \<Rightarrow> TSDBFile \<times> error option"
  AddIndex :: "world \<Rightarrow> string \<Rightarrow> string \<Rightarrow> TSDBFile \<Rightarrow> error option"
  recoverHead :: "string \<Rightarrow> tenantHeads \<Rightarrow> WALIdentifier list \<Rightarrow> tenantHeads \<times> error option"
  Hash :: "Labels \<Rightarrow> Fingerprint"
  Builder_Set :: "Labels \<Rightarrow> string \<Rightarrow> string \<Rightarrow> Labels"
  TenantLabel :: string
  writeIndex :: "world \<Rightarrow> Builder \<Rightarrow> string \<Rightarrow> error + Time \<times> Time \<times> 32 word"
  moveIndex :: "world \<Rightarrow> string \<Rightarrow> prefixedIdentifier \<Rightarrow> error option"
  rangeOrder :: "string list \<Rightarrow> string list"

record tsdbManager =
  nodeName :: string
  dir :: string
  tableRanges :: TableRanges

subsection \<open>Go maps\<close>

text \<open>
  \<open>rangeMap ord m\<close> is the sequence of entries a \<open>range\<close> loop over the map \<open>m\<close>
  visits when the keys come in the order \<open>ord\<close> gives them. \<open>appendAt m k x\<close> is
  \<open>m[k] = append(m[k], x)\<close>.
\<close>

definition rangeMap :: "(string list \<Rightarrow> string list) \<Rightarrow> (string \<times> 'v) list \<Rightarrow> (string \<times> 'v) list" where
  "rangeMap ord m =
     concat (map (\<lambda>k. case map_of m k of None \<Rightarrow> [] | Some v \<Rightarrow> [(k, v)]) (ord (map fst m)))"

definition appendAt :: "(string \<times> 'a list) list \<Rightarrow> string \<Rightarrow> 'a \<Rightarrow> (string \<times> 'a list) list" where
  "appendAt m k x = AList.update k ((case map_of m k of None \<Rightarrow> [] | Some xs \<Rightarrow> xs) @ [x]) m"

subsection \<open>\<open>Start\<close>\<close>

text \<open>
  \<open>MatchString\<close> is \<open>extractBucketNumberRegex.MatchString\<close> for the pattern
  \<open>[0-9]+$\<close>: the name ends in a digit.
\<close>

definition isDigit :: "char \<Rightarrow> bool" where
  "isDigit c = (48 \<le> (of_char c :: nat) \<and> (of_char c :: nat) \<le> 57)"

definition MatchString :: "string \<Rightarrow> bool" where
  "MatchString s = (s \<noteq> [] \<and> isDigit (last s))"

record counts =
  buckets :: int
  indices :: int
  loadingErrors :: int

text \<open>How a call of \<open>Start\<close> ends: it returns its error result, or it panics.\<close>

datatype outcome = Returned "error option" | Panicked

text \<open>
  The body of the loop over the files of one bucket (lines 127 to 151). The result
  \<open>Some e\<close> is the \<open>return err\<close> of line 150.
\<close>

definition loadIndex ::
  "env \<Rightarrow> string \<Rightarrow> string \<Rightarrow> FileInfo \<Rightarrow> counts \<times> world \<Rightarrow> error option \<times> counts \<times> world" where
  "loadIndex env mulitenantDir bucket db cw =
     (case parseMultitenantTSDBPath env (Name db) of
        None \<Rightarrow> (None, cw)
      | Some ident \<Rightarrow>
          (let (c, w) = cw;
               c1 = c\<lparr>indices := indices c + 1\<rparr>;
               prefixed = newPrefixedIdentifier ident (Join env mulitenantDir bucket) [];
               (loaded, err) = NewShippableTSDBFile env w prefixed False;
               w1 = called (OpenCall prefixed False loaded err) w;
               (c2, w2) =
                 (case err of
                    None \<Rightarrow> (c1, w1)
                  | Some e \<Rightarrow>
                      (c1\<lparr>loadingErrors := loadingErrors c1 + 1\<rparr>,
                       Log LevelWarn
                         [(''msg'', S []), (''tsdbPath'', PathOf prefixed), (''err'', S (Error e))]
                         w1));
               r = AddIndex env w2 bucket [] loaded;
               w3 = called (AddIndexCall bucket [] loaded r) w2
           in case r of
                Some e \<Rightarrow> (Some e, c2\<lparr>loadingErrors := loadingErrors c2 + 1\<rparr>, w3)
              | None \<Rightarrow> (None, c2, w3)))"

fun tsdbLoop ::
  "env \<Rightarrow> string \<Rightarrow> string \<Rightarrow> FileInfo list \<Rightarrow> counts \<times> world \<Rightarrow> error option \<times> counts \<times> world" where
  "tsdbLoop env mulitenantDir bucket [] cw = (None, cw)"
| "tsdbLoop env mulitenantDir bucket (db # tsdbs) cw =
     (case loadIndex env mulitenantDir bucket db cw of
        (Some e, cw') \<Rightarrow> (Some e, cw')
      | (None, cw') \<Rightarrow> tsdbLoop env mulitenantDir bucket tsdbs cw')"

text \<open>
  The body of the loop over the entries of the multitenant directory (lines 101 to 152).
  \<open>err\<close> is the named result of \<open>Start\<close>, which line 110 reads: calling \<open>Error()\<close>
  on a \<open>nil\<close> error is a nil dereference, and the arguments of \<open>Log\<close> are evaluated
  before the line is written. The result \<open>None\<close> goes on to the next entry.
\<close>

definition loadBucket ::
  "env \<Rightarrow> string \<Rightarrow> error option \<Rightarrow> FileInfo \<Rightarrow> counts \<times> world \<Rightarrow> outcome option \<times> counts \<times> world" where
  "loadBucket env mulitenantDir err f cw =
     (if \<not> IsDir f then (None, cw)
      else
        (let (c, w) = cw;
             bucket = Name f
         in if \<not> MatchString (Name f) then
              (case err of
                 None \<Rightarrow> (Some Panicked, cw)
               | Some e \<Rightarrow>
                   (None, c,
                    Log LevelWarn
                      [(''msg'', S ''directory name does not match expected bucket name pattern''),
                       (''name'', S bucket), (''err'', S (Error e))]
                      w))
            else
              (let c1 = c\<lparr>buckets := buckets c + 1\<rparr>
               in case ReadDir env (Join env mulitenantDir bucket) of
                    Inl e \<Rightarrow>
                      (None, c1,
                       Log LevelWarn
                         [(''msg'', S ''failed to open period bucket dir''),
                          (''bucket'', S bucket), (''err'', S (Error e))]
                         w)
                  | Inr tsdbs \<Rightarrow>
                      (case tsdbLoop env mulitenantDir bucket tsdbs (c1, w) of
                         (Some e, cw') \<Rightarrow> (Some (Returned (Some e)), cw')
                       | (None, cw') \<Rightarrow> (None, cw')))))"

fun bucketsLoop ::
  "env \<Rightarrow> string \<Rightarrow> error option \<Rightarrow> FileInfo list \<Rightarrow> counts \<times> world \<Rightarrow> outcome \<times> counts \<times> world" where
  "bucketsLoop env mulitenantDir err [] cw = (Returned None, cw)"
| "bucketsLoop env mulitenantDir err (f # files) cw =
     (case loadBucket env mulitenantDir err f cw of
        (Some out, cw') \<Rightarrow> (out, cw')
      | (None, cw') \<Rightarrow> bucketsLoop env mulitenantDir err files cw')"

text \<open>
  Lines 88 to 156: the pattern is a constant that compiles, so \<open>err\<close> is \<open>nil\<close>
  after line 88, and it is \<open>nil\<close> again after a successful \<open>ReadDir\<close>; the loops
  declare errors of their own and never assign it.
\<close>

definition Start_body :: "env \<Rightarrow> tsdbManager \<Rightarrow> world \<Rightarrow> outcome \<times> counts \<times> world" where
  "Start_body env m w =
     (let c = \<lparr>buckets = 0, indices = 0, loadingErrors = 0\<rparr>;
          mulitenantDir = managerMultitenantDir env (dir m)
      in case ReadDir env mulitenantDir of
           Inl e \<Rightarrow> (Returned (Some e), c, w)
         | Inr files \<Rightarrow> bucketsLoop env mulitenantDir None files (c, w))"

text \<open>
  \<open>Start\<close> with its deferred function (lines 76 to 85), which also runs when the body
  panics; \<open>err\<close> is then still \<open>nil\<close>.
\<close>

definition Start :: "env \<Rightarrow> tsdbManager \<Rightarrow> world \<Rightarrow> outcome \<times> world" where
  "Start env m w =
     (let (out, c, w') = Start_body env m w;
          err = (case out of Returned e \<Rightarrow> e | Panicked \<Rightarrow> None)
      in (out,
          Log LevelInfo
            [(''msg'', S ''loaded leftover local indices''), (''err'', E err),
             (''successful'', B (err = None)), (''buckets'', N (buckets c)),
             (''indices'', N (indices c)), (''failures'', N (loadingErrors c))]
            w'))"

subsection \<open>\<open>BuildFromWALs\<close>\<close>

text \<open>
  Modelled from the spec: \<open>newTenantHeads\<close> makes empty heads, and \<open>forAll\<close> visits
  every (tenant, labels, chunks) of the heads once; an error of the visit stops the
  iteration and is returned.
\<close>

definition newTenantHeads :: "int \<Rightarrow> tenantHeads" where
  "newTenantHeads t = \<lparr>heads_start = t, heads_series = []\<rparr>"

fun forAll_loop ::
  "(string \<times> Labels \<times> ChunkMeta list) list \<Rightarrow>
   (string \<Rightarrow> Labels \<Rightarrow> ChunkMeta list \<Rightarrow> 's \<Rightarrow> error option \<times> 's) \<Rightarrow> 's \<Rightarrow> error option \<times> 's" where
  "forAll_loop [] fn s = (None, s)"
| "forAll_loop ((user, ls, chks) # rest) fn s =
     (case fn user ls chks s of
        (Some e, s') \<Rightarrow> (Some e, s')
      | (None, s') \<Rightarrow> forAll_loop rest fn s')"

definition forAll ::
  "tenantHeads \<Rightarrow> (string \<Rightarrow> Labels \<Rightarrow> ChunkMeta list \<Rightarrow> 's \<Rightarrow> error option \<times> 's) \<Rightarrow> 's \<Rightarrow>
   error option \<times> 's" where
  "forAll tmp fn s = forAll_loop (heads_series tmp) fn s"

text \<open>
  Lines 181 to 191: the chunks of one series grouped by the keys of the periods they
  overlap. An error of \<open>indexBuckets\<close> is returned at once.
\<close>

fun chunksLoop ::
  "TableRanges \<Rightarrow> ChunkMeta list \<Rightarrow> (string \<times> ChunkMeta list) list \<Rightarrow>
   (string \<times> ChunkMeta list) list \<times> error option" where
  "chunksLoop tr [] pds = (pds, None)"
| "chunksLoop tr (chk # chks) pds =
     (case indexBuckets (From chk) (Through chk) tr of
        (idxBuckets, Some err) \<Rightarrow> (pds, Some err)
      | (idxBuckets, None) \<Rightarrow>
          chunksLoop tr chks (foldl (\<lambda>pds bucket. appendAt pds bucket chk) pds idxBuckets))"

text \<open>
  Lines 199 to 213: each period of the series gets its builder, made on first use, and
  one \<open>AddSeries\<close>.
\<close>

type_synonym periods = "(string \<times> Builder) list"

fun seriesLoop ::
  "Labels \<Rightarrow> Fingerprint \<Rightarrow> (string \<times> ChunkMeta list) list \<Rightarrow> periods \<times> world \<Rightarrow> periods \<times> world" where
  "seriesLoop withTenant fp [] pw = pw"
| "seriesLoop withTenant fp ((pd, matchingChks) # rest) (periods, w) =
     (let (b, periods1, w1) =
            (case map_of periods pd of
               Some b \<Rightarrow> (b, periods, w)
             | None \<Rightarrow>
                 (NewBuilder, AList.update pd NewBuilder periods, called (NewBuilderCall pd) w));
          b1 = AddSeries withTenant fp matchingChks b
      in seriesLoop withTenant fp rest
           (AList.update pd b1 periods1, called (AddSeriesCall pd withTenant fp matchingChks) w1))"

text \<open>The function given to \<open>forAll\<close> (lines 178 to 216).\<close>

definition visit ::
  "env \<Rightarrow> tsdbManager \<Rightarrow> string \<Rightarrow> Labels \<Rightarrow> ChunkMeta list \<Rightarrow> periods \<times> world \<Rightarrow>
   error option \<times> periods \<times> world" where
  "visit env m user ls chks pw =
     (case chunksLoop (tableRanges m) chks [] of
        (pds, Some err) \<Rightarrow> (Some err, pw)
      | (pds, None) \<Rightarrow>
          (let withTenant = Builder_Set env ls (TenantLabel env) user
           in (None, seriesLoop withTenant (Hash env ls) (rangeMap (rangeOrder env) pds) pw)))"

text \<open>
  Modelled from the spec: \<open>Builder.Build(ctx, scratchDir, identifierFn)\<close> writes the
  content, asks \<open>identifierFn(from, through, checksum)\<close> for the destination once the
  content and its checksum are known, and moves the file there.
\<close>

definition Build ::
  "env \<Rightarrow> world \<Rightarrow> Builder \<Rightarrow> string \<Rightarrow> (Time \<Rightarrow> Time \<Rightarrow> 32 word \<Rightarrow> prefixedIdentifier) \<Rightarrow>
   prefixedIdentifier option \<times> error option" where
  "Build env w b scratchDir identifierFn =
     (case writeIndex env w b scratchDir of
        Inl err \<Rightarrow> (None, Some err)
      | Inr (from, through, checksum) \<Rightarrow>
          (let dst = identifierFn from through checksum
           in case moveIndex env w scratchDir dst of
                Some err \<Rightarrow> (None, Some err)
              | None \<Rightarrow> (Some dst, None)))"

text \<open>The function literal of lines 239 to 241, closed over \<open>dst\<close>.\<close>

definition createFn :: "prefixedIdentifier \<Rightarrow> Time \<Rightarrow> Time \<Rightarrow> 32 word \<Rightarrow> prefixedIdentifier" where
  "createFn dst from through checksum = dst"

text \<open>
  The body of the loop over the periods (lines 223 to 256). The result \<open>Some e\<close> is
  one of its three \<open>return err\<close>.
\<close>

definition buildPeriod ::
  "env \<Rightarrow> tsdbManager \<Rightarrow> int \<Rightarrow> string \<times> Builder \<Rightarrow> world \<Rightarrow> error option \<times> world" where
  "buildPeriod env m t pb w =
     (let (p, b) = pb;
          dstDir = Join env (managerMultitenantDir env (dir m)) p;
          dst = newPrefixedIdentifier \<lparr>id_nodeName = nodeName m, id_ts = t\<rparr> dstDir [];
          w1 = Log LevelDebug
                 [(''msg'', S ''building tsdb for period''), (''pd'', S p), (''dst'', PathOf dst)] w;
          (res, err) = Build env w1 b (managerScratchDir env (dir m)) (createFn dst);
          w2 = called (BuildCall p (managerScratchDir env (dir m)) res err) w1
      in case err of
           Some e \<Rightarrow> (Some e, w2)
         | None \<Rightarrow>
             (let w3 = Log LevelDebug
                         [(''msg'', S ''finished building tsdb for period''), (''pd'', S p),
                          (''dst'', PathOf dst), (''duration'', Elapsed)] w2;
                  (loaded, err) = NewShippableTSDBFile env w3 dst False;
                  w4 = called (OpenCall dst False loaded err) w3
              in case err of
                   Some e \<Rightarrow> (Some e, w4)
                 | None \<Rightarrow>
                     (let r = AddIndex env w4 p [] loaded
                      in (r, called (AddIndexCall p [] loaded r) w4))))"

fun periodsLoop ::
  "env \<Rightarrow> tsdbManager \<Rightarrow> int \<Rightarrow> (string \<times> Builder) list \<Rightarrow> world \<Rightarrow> error option \<times> world" where
  "periodsLoop env m t [] w = (None, w)"
| "periodsLoop env m t (pb # rest) w =
     (case buildPeriod env m t pb w of
        (Some e, w') \<Rightarrow> (Some e, w')
      | (None, w') \<Rightarrow> periodsLoop env m t rest w')"

text \<open>Lines 170 to 259, all but the deferred function.\<close>

definition BuildFromWALs_body ::
  "env \<Rightarrow> tsdbManager \<Rightarrow> int \<Rightarrow> WALIdentifier list \<Rightarrow> world \<Rightarrow> error option \<times> world" where
  "BuildFromWALs_body env m t ids w =
     (let w1 = Log LevelDebug [(''msg'', S ''recovering tenant heads'')] w;
          (tmp, err) = recoverHead env (dir m) (newTenantHeads t) ids
      in case err of
           Some e \<Rightarrow> (Some (Wrap e ''building TSDB from WALs''), w1)
         | None \<Rightarrow>
             (case forAll tmp (visit env m) ([], w1) of
                (Some e, periods, w2) \<Rightarrow>
                  (Some e,
                   Log LevelError
                     [(''err'', S (Error e)), (''msg'', S ''building TSDB from WALs'')] w2)
              | (None, periods, w2) \<Rightarrow>
                  periodsLoop env m t (rangeMap (rangeOrder env) periods) w2))"

text \<open>
  \<open>BuildFromWALs\<close> with its first log line and its deferred function (lines 160 to
  168), which counts the attempt and, when the result is an error, the failure.
\<close>

definition BuildFromWALs ::
  "env \<Rightarrow> tsdbManager \<Rightarrow> int \<Rightarrow> WALIdentifier list \<Rightarrow> world \<Rightarrow> error option \<times> world" where
  "BuildFromWALs env m t ids w =
     (let w0 = Log LevelDebug
                 [(''msg'', S ''building WALs''), (''n'', N (int (length ids))), (''ts'', N t)] w;
          (err, w1) = BuildFromWALs_body env m t ids w0;
          w2 = w1\<lparr>tsdbCreationsTotal := tsdbCreationsTotal w1 + 1\<rparr>
      in (err,
          if err \<noteq> None then w2\<lparr>tsdbCreationFailures := tsdbCreationFailures w2 + 1\<rparr> else w2))"

subsection \<open>Reading the calls of a run\<close>

text \<open>
  \<open>newCalls w w'\<close> are the calls made between the worlds \<open>w\<close> and \<open>w'\<close>;
  \<open>addIndexCalls\<close> and \<open>buildCalls\<close> pick the arguments of the \<open>AddIndex\<close> and the
  \<open>Build\<close> calls, and \<open>builderCall\<close> holds of the calls that make or fill a builder.
  \<open>chunkKeys\<close> are the keys \<open>indexBuckets\<close> gives for a chunk, and \<open>touched\<close> lists
  the keys of the periods that the chunks of the recovered series overlap.
  \<open>destination env m t p\<close> is the identifier that lines 223 to 231 make for the period
  \<open>p\<close>, and \<open>periodCalls env m t p f\<close> are the three calls of a period that is built,
  opened as the file \<open>f\<close> and registered. \<open>holdsAt m k x\<close> says that the list at the
  key \<open>k\<close> of the map \<open>m\<close> holds \<open>x\<close>. \<open>eachKeyOnce\<close> says of an order what Go
  promises of a \<open>range\<close> loop over a map: every key is visited once.
\<close>

definition newCalls :: "world \<Rightarrow> world \<Rightarrow> call list" where
  "newCalls w w' = drop (length (calls w)) (calls w')"

fun addIndexCalls :: "call list \<Rightarrow> (string \<times> string \<times> TSDBFile) list" where
  "addIndexCalls [] = []"
| "addIndexCalls (AddIndexCall bucket tenant f r # cs) = (bucket, tenant, f) # addIndexCalls cs"
| "addIndexCalls (c # cs) = addIndexCalls cs"

fun buildCalls :: "call list \<Rightarrow> (string \<times> prefixedIdentifier option) list" where
  "buildCalls [] = []"
| "buildCalls (BuildCall pd scratchDir res err # cs) = (pd, res) # buildCalls cs"
| "buildCalls (c # cs) = buildCalls cs"

definition chunkKeys :: "TableRanges \<Rightarrow> ChunkMeta \<Rightarrow> string list" where
  "chunkKeys tr chk = fst (indexBuckets (From chk) (Through chk) tr)"

definition touched :: "TableRanges \<Rightarrow> tenantHeads \<Rightarrow> string list" where
  "touched tr tmp =
     concat (map (\<lambda>(user, ls, chks). concat (map (chunkKeys tr) chks)) (heads_series tmp))"

definition destination :: "env \<Rightarrow> tsdbManager \<Rightarrow> int \<Rightarrow> string \<Rightarrow> prefixedIdentifier" where
  "destination env m t p =
     newPrefixedIdentifier \<lparr>id_nodeName = nodeName m, id_ts = t\<rparr>
       (Join env (managerMultitenantDir env (dir m)) p) []"

definition periodCalls :: "env \<Rightarrow> tsdbManager \<Rightarrow> int \<Rightarrow> string \<Rightarrow> TSDBFile \<Rightarrow> call list" where
  "periodCalls env m t p f =
     [BuildCall p (managerScratchDir env (dir m)) (Some (destination env m t p)) None,
      OpenCall (destination env m t p) False f None,
      AddIndexCall p [] f None]"

definition holdsAt :: "(string \<times> 'a list) list \<Rightarrow> string \<Rightarrow> 'a \<Rightarrow> bool" where
  "holdsAt m k x = (case map_of m k of None \<Rightarrow> False | Some xs \<Rightarrow> x \<in> set xs)"

definition eachKeyOnce :: "(string list \<Rightarrow> string list) \<Rightarrow> bool" where
  "eachKeyOnce ord = (\<forall>ks. distinct ks \<longrightarrow> distinct (ord ks) \<and> set (ord ks) = set ks)"

fun builderCall :: "call \<Rightarrow> bool" where
  "builderCall (NewBuilderCall pd) = True"
| "builderCall (AddSeriesCall pd ls fp chks) = True"
| "builderCall c = False"

text \<open>
  For \<open>Start\<close>: \<open>failures\<close> counts the calls that returned an error;
  \<open>registersAfterOpen tr\<close> says that every failed \<open>NewShippableTSDBFile\<close> in \<open>tr\<close> is
  followed at once by an \<open>AddIndex\<close> of the file it returned, with the empty tenant;
  \<open>stopsAt tr R\<close> says that an \<open>AddIndex\<close> that returned an error \<open>e\<close> is the last
  call of \<open>tr\<close> and that \<open>R e\<close> holds.
\<close>

fun failures :: "call list \<Rightarrow> nat" where
  "failures [] = 0"
| "failures (OpenCall p readonly f (Some e) # cs) = Suc (failures cs)"
| "failures (AddIndexCall bucket tenant f (Some e) # cs) = Suc (failures cs)"
| "failures (c # cs) = failures cs"

definition registersAfterOpen :: "call list \<Rightarrow> bool" where
  "registersAfterOpen tr =
     (\<forall>pre p readonly f e post. tr = pre @ OpenCall p readonly f (Some e) # post \<longrightarrow>
        (\<exists>bucket r post'. post = AddIndexCall bucket [] f r # post'))"

definition stopsAt :: "call list \<Rightarrow> (error \<Rightarrow> bool) \<Rightarrow> bool" where
  "stopsAt tr R =
     (\<forall>pre bucket tenant f e post. tr = pre @ AddIndexCall bucket tenant f (Some e) # post \<longrightarrow>
        post = [] \<and> R e)"

subsection \<open>Concrete inputs\<close>

text \<open>Table-range configurations used to run the definitions.\<close>

definition periodConfig :: "string \<Rightarrow> PeriodConfig" where
  "periodConfig p = \<lparr>IndexTables = \<lparr>Prefix = p\<rparr>\<rparr>"

definition everyTable :: TableRanges where
  "everyTable n = Some (periodConfig ''index_'')"

definition fromEpoch :: TableRanges where
  "fromEpoch n = (if 0 \<le> n then Some (periodConfig ''index_'') else None)"

definition twoPrefixes :: TableRanges where
  "twoPrefixes n = (if n = 1 then Some (periodConfig ''index_1'') else Some (periodConfig ''index_''))"

text \<open>
  A manager for the node \<open>ingester-0\<close> with its directory \<open>/data\<close>, an empty world,
  and collaborators over a small directory tree: under \<open>/data/multitenant\<close> the
  directories \<open>17000\<close> (holding one index file), \<open>17001\<close> (holding a file whose
  name does not parse) and \<open>badname\<close>, as \<open>ioutil.ReadDir\<close> lists them, sorted by
  name. Recovery yields one series of the tenant \<open>A\<close> with one chunk that starts on day
  0 and ends on day 1.
\<close>

definition manager :: tsdbManager where
  "manager = \<lparr>nodeName = ''ingester-0'', dir = ''/data'', tableRanges = everyTable\<rparr>"

definition emptyWorld :: world where
  "emptyWorld = \<lparr>logs = [], calls = [], tsdbCreationsTotal = 0, tsdbCreationFailures = 0\<rparr>"

definition directory :: "string \<Rightarrow> FileInfo" where
  "directory n = \<lparr>Name = n, IsDir = True\<rparr>"

definition regular :: "string \<Rightarrow> FileInfo" where
  "regular n = \<lparr>Name = n, IsDir = False\<rparr>"

definition exampleReadDir :: "string \<Rightarrow> error + FileInfo list" where
  "exampleReadDir p =
     (if p = ''/data/multitenant'' then
        Inr [directory ''17000'', directory ''17001'', directory ''badname'']
      else if p = ''/data/multitenant/17000'' then Inr [regular ''1-ingester-0.tsdb'']
      else if p = ''/data/multitenant/17001'' then Inr [regular ''unparsable-file'']
      else Inl (ErrorString ''no such file or directory''))"

definition exampleJoin :: "string \<Rightarrow> string \<Rightarrow> string" where
  "exampleJoin a b = a @ ''/'' @ b"

definition exampleParse :: "string \<Rightarrow> MultitenantTSDBIdentifier option" where
  "exampleParse n =
     (if n = ''1-ingester-0.tsdb'' then Some \<lparr>id_nodeName = ''ingester-0'', id_ts = 1\<rparr>
      else None)"

definition exampleChunk :: ChunkMeta where
  "exampleChunk = \<lparr>From = 36000000, Through = 129600000, Checksum = 7\<rparr>"

definition exampleLabels :: Labels where
  "exampleLabels = [(''app'', ''web'')]"

definition exampleRecover :: "string \<Rightarrow> tenantHeads \<Rightarrow> WALIdentifier list \<Rightarrow> tenantHeads \<times> error option" where
  "exampleRecover d tmp ids =
     (tmp\<lparr>heads_series := [(''A'', exampleLabels, [exampleChunk])]\<rparr>, None)"

definition exampleSet :: "Labels \<Rightarrow> string \<Rightarrow> string \<Rightarrow> Labels" where
  "exampleSet ls n v = (n, v) # ls"

definition exampleHash :: "Labels \<Rightarrow> Fingerprint" where
  "exampleHash ls = of_nat (length ls)"

definition exampleOpen :: "world \<Rightarrow> prefixedIdentifier \<Rightarrow> bool \<Rightarrow> TSDBFile \<times> error option" where
  "exampleOpen w p readonly = (TSDBFile p, None)"

definition exampleAddIndex :: "world \<Rightarrow> string \<Rightarrow> string \<Rightarrow> TSDBFile \<Rightarrow> error option" where
  "exampleAddIndex w bucket tenant f = None"

definition exampleWrite :: "32 word \<Rightarrow> world \<Rightarrow> Builder \<Rightarrow> string \<Rightarrow> error + Time \<times> Time \<times> 32 word" where
  "exampleWrite checksum w b scratchDir = Inr (36000000, 129600000, checksum)"

definition exampleMove :: "world \<Rightarrow> string \<Rightarrow> prefixedIdentifier \<Rightarrow> error option" where
  "exampleMove w scratchDir dst = None"

definition sameOrder :: "string list \<Rightarrow> string list" where
  "sameOrder ks = ks"

definition exampleEnv :: env where
  "exampleEnv =
     \<lparr>ReadDir = exampleReadDir, Join = exampleJoin,
      managerMultitenantDir = (\<lambda>d. exampleJoin d ''multitenant''),
      managerScratchDir = (\<lambda>d. exampleJoin d ''scratch''),
      parseMultitenantTSDBPath = exampleParse,
      NewShippableTSDBFile = exampleOpen, AddIndex = exampleAddIndex,
      recoverHead = exampleRecover, Hash = exampleHash, Builder_Set = exampleSet,
      TenantLabel = ''__loki_tenant__'',
      writeIndex = exampleWrite 7, moveIndex = exampleMove, rangeOrder = sameOrder\<rparr>"

text \<open>The same collaborators with a recovery that fails, and with one that finds nothing.\<close>

definition failingRecover :: "string \<Rightarrow> tenantHeads \<Rightarrow> WALIdentifier list \<Rightarrow> tenantHeads \<times> error option" where
  "failingRecover d tmp ids = (tmp, Some (ErrorString ''corrupt segment''))"

definition emptyRecover :: "string \<Rightarrow> tenantHeads \<Rightarrow> WALIdentifier list \<Rightarrow> tenantHeads \<times> error option" where
  "emptyRecover d tmp ids = (tmp, None)"

text \<open>
  A file system on which no index file can be opened and a shipper that refuses every
  index, each with an error of its own.
\<close>

definition failingOpen :: "world \<Rightarrow> prefixedIdentifier \<Rightarrow> bool \<Rightarrow> TSDBFile \<times> error option" where
  "failingOpen w p readonly = (nilFile, Some (ErrorString ''open failed''))"

definition failingAddIndex :: "world \<Rightarrow> string \<Rightarrow> string \<Rightarrow> TSDBFile \<Rightarrow> error option" where
  "failingAddIndex w bucket tenant f = Some (ErrorString ''shipper stopped'')"

definition brokenEnv :: env where
  "brokenEnv = exampleEnv\<lparr>NewShippableTSDBFile := failingOpen, AddIndex := failingAddIndex\<rparr>"

section \<open>Properties\<close>

subsection \<open>Worlds and Go maps\<close>

lemma calls_Log [simp]: "calls (Log lvl kv w) = calls w"
  by (simp add: Log_def)

lemma metrics_Log [simp]:
  "tsdbCreationsTotal (Log lvl kv w) = tsdbCreationsTotal w"
  "tsdbCreationFailures (Log lvl kv w) = tsdbCreationFailures w"
  by (simp_all add: Log_def)

lemma calls_called [simp]: "calls (called c w) = calls w @ [c]"
  by (simp add: called_def)

lemma metrics_called [simp]:
  "tsdbCreationsTotal (called c w) = tsdbCreationsTotal w"
  "tsdbCreationFailures (called c w) = tsdbCreationFailures w"
  by (simp_all add: called_def)

lemma newCalls_eq: "calls w' = calls w @ tr \<Longrightarrow> newCalls w w' = tr"
  by (simp add: newCalls_def)

lemma addIndexCalls_append: "addIndexCalls (xs @ ys) = addIndexCalls xs @ addIndexCalls ys"
  by (induction xs rule: addIndexCalls.induct) simp_all

lemma buildCalls_append: "buildCalls (xs @ ys) = buildCalls xs @ buildCalls ys"
  by (induction xs rule: buildCalls.induct) simp_all

lemma builderCalls_no_addIndex: "\<forall>c\<in>set tr. builderCall c \<Longrightarrow> addIndexCalls tr = []"
  by (induction tr rule: addIndexCalls.induct) simp_all

lemma builderCalls_no_build: "\<forall>c\<in>set tr. builderCall c \<Longrightarrow> buildCalls tr = []"
  by (induction tr rule: buildCalls.induct) simp_all

lemma rangeMap_entries: "(k, v) \<in> set (rangeMap ord m) \<Longrightarrow> map_of m k = Some v"
  by (auto simp: rangeMap_def split: option.splits)

lemma rangeMap_subset: "set (rangeMap ord m) \<subseteq> set m"
proof
  fix x assume "x \<in> set (rangeMap ord m)"
  then have "map_of m (fst x) = Some (snd x)" by (intro rangeMap_entries) simp
  then show "x \<in> set m" using map_of_SomeD by fastforce
qed

lemma rangeMap_Nil [simp]: "rangeMap ord [] = []"
  by (simp add: rangeMap_def)

lemma rangeMap_map_fst:
  assumes "set (ord (map fst m)) \<subseteq> set (map fst m)"
  shows "map fst (rangeMap ord m) = ord (map fst m)"
proof -
  have "map fst (concat (map (\<lambda>k. case map_of m k of None \<Rightarrow> [] | Some v \<Rightarrow> [(k, v)]) ks)) = ks"
    if "set ks \<subseteq> set (map fst m)" for ks
    using that
  proof (induction ks)
    case Nil
    then show ?case by simp
  next
    case (Cons k ks)
    then have "k \<in> fst ` set m" by simp
    then obtain v where "map_of m k = Some v"
      by (metis domD dom_map_of_conv_image_fst)
    then show ?case using Cons by simp
  qed
  from this [OF assms] show ?thesis by (simp add: rangeMap_def)
qed

lemma rangeMap_once:
  assumes "eachKeyOnce ord" "distinct (map fst m)"
  shows "distinct (map fst (rangeMap ord m))" "set (map fst (rangeMap ord m)) = fst ` set m"
proof -
  have o: "distinct (ord (map fst m))" "set (ord (map fst m)) = set (map fst m)"
    using assms by (simp_all add: eachKeyOnce_def)
  then have "map fst (rangeMap ord m) = ord (map fst m)"
    by (intro rangeMap_map_fst) simp
  then show "distinct (map fst (rangeMap ord m))" "set (map fst (rangeMap ord m)) = fst ` set m"
    using o by simp_all
qed

lemma rangeMap_complete:
  assumes "eachKeyOnce ord" "distinct (map fst m)" "map_of m k = Some v"
  shows "(k, v) \<in> set (rangeMap ord m)"
proof -
  have "k \<in> fst ` set m" using assms(3) by (metis domI dom_map_of_conv_image_fst)
  then have "k \<in> set (ord (map fst m))" using assms(1,2) by (simp add: eachKeyOnce_def)
  then show ?thesis using assms(3) by (force simp: rangeMap_def)
qed

lemma appendAt_keys: "fst ` set (appendAt m k x) = insert k (fst ` set m)"
  by (simp add: appendAt_def dom_update)

lemma appendAt_distinct: "distinct (map fst m) \<Longrightarrow> distinct (map fst (appendAt m k x))"
  by (simp add: appendAt_def distinct_update)

lemma appendAt_lookup:
  "map_of (appendAt m k x) k' =
     (if k' = k then Some ((case map_of m k of None \<Rightarrow> [] | Some xs \<Rightarrow> xs) @ [x]) else map_of m k')"
  by (simp add: appendAt_def update_conv')

subsection \<open>Decimal numerals are injective\<close>

lemma of_char_digit: "d < 10 \<Longrightarrow> of_char (digit d) = (48 + d :: nat)"
proof -
  assume d: "d < 10"
  have "of_char (digit d) = ((48 + d) mod 256 :: nat)"
    by (simp only: digit_def of_char_of)
  also have "\<dots> = 48 + d" using d by (intro mod_less) linarith
  finally show ?thesis .
qed

lemma digitVal_digit: "d < 10 \<Longrightarrow> digitVal (digit d) = d"
  by (simp only: digitVal_def of_char_digit)

lemma decimal_append: "decimal acc (xs @ ys) = decimal (decimal acc xs) ys"
  by (induction xs arbitrary: acc) simp_all

lemma decimal_digits: "decimal 0 (digits n) = n"
proof (induction n rule: digits.induct)
  case (1 n)
  show ?case
  proof (cases "n < 10")
    case True
    then have "digits n = [digit n]" by (subst digits.simps) simp
    then show ?thesis using True by (simp add: digitVal_digit)
  next
    case False
    then have e: "digits n = digits (n div 10) @ [digit (n mod 10)]" by (subst digits.simps) simp
    have "decimal 0 (digits n) = 10 * decimal 0 (digits (n div 10)) + digitVal (digit (n mod 10))"
      by (simp only: e decimal_append decimal.simps)
    also have "\<dots> = 10 * (n div 10) + n mod 10"
      using "1.IH" [OF False] by (simp add: digitVal_digit)
    finally show ?thesis by simp
  qed
qed

lemma digits_inj: "digits a = digits b \<Longrightarrow> a = b"
  by (metis decimal_digits)

lemma digits_hd: "\<exists>d cs. d < 10 \<and> digits n = digit d # cs"
proof (induction n rule: digits.induct)
  case (1 n)
  show ?case
  proof (cases "n < 10")
    case True
    then have "digits n = [digit n]" by (subst digits.simps) simp
    then show ?thesis using True by blast
  next
    case False
    then have e: "digits n = digits (n div 10) @ [digit (n mod 10)]" by (subst digits.simps) simp
    from "1.IH" [OF False] obtain d cs where "d < 10" "digits (n div 10) = digit d # cs" by blast
    then show ?thesis using e by auto
  qed
qed

lemma digit_not_minus: "d < 10 \<Longrightarrow> digit d \<noteq> CHR ''-''"
proof
  assume d: "d < 10" and e: "digit d = CHR ''-''"
  have "of_char (digit d) = (48 + d :: nat)" using d by (rule of_char_digit)
  moreover have "of_char (CHR ''-'') = (45 :: nat)" by simp
  ultimately show False using e by simp
qed

lemma Itoa_inj: "Itoa a = Itoa b \<Longrightarrow> a = b"
proof -
  assume e: "Itoa a = Itoa b"
  have neg_pos: False if "x < 0" "\<not> y < 0" "Itoa x = Itoa y" for x y
  proof -
    obtain d cs where d: "d < 10" "digits (nat y) = digit d # cs" using digits_hd by blast
    have "CHR ''-'' # digits (nat (- x)) = digit d # cs" using that d by (simp add: Itoa_def)
    then show False using digit_not_minus [OF d(1)] by simp
  qed
  show ?thesis
  proof (cases "a < 0")
    case True
    show ?thesis
    proof (cases "b < 0")
      case b: True
      have "digits (nat (- a)) = digits (nat (- b))" using e True b by (simp add: Itoa_def)
      then have "nat (- a) = nat (- b)" by (rule digits_inj)
      then show ?thesis using True b by simp
    next
      case False
      then show ?thesis using neg_pos [OF True False e] by simp
    qed
  next
    case False
    show ?thesis
    proof (cases "b < 0")
      case b: True
      then show ?thesis using neg_pos [OF b False e [symmetric]] by simp
    next
      case b: False
      have "digits (nat a) = digits (nat b)" using e False b by (simp add: Itoa_def)
      then have "nat a = nat b" by (rule digits_inj)
      then show ?thesis using False b by simp
    qed
  qed
qed

subsection \<open>Table numbers\<close>

text \<open>
  For a time from the epoch on whose nanoseconds fit an int64, the table number is the
  floor of the quotient; before the epoch the quotient is rounded toward zero instead.
\<close>

lemma int64_id: "- (2 ^ 63) \<le> x \<Longrightarrow> x < 2 ^ 63 \<Longrightarrow> int64 x = x"
  by (simp add: int64_def)

lemma tableNumber_floor:
  "0 \<le> t \<Longrightarrow> t * 1000000 < 2 ^ 63 \<Longrightarrow>
   tableNumber t = (t * 1000000) div ObjectStorageIndexRequiredPeriod"
proof -
  assume t: "0 \<le> t" "t * 1000000 < 2 ^ 63"
  have "UnixNano t = t * 1000000" using t by (simp add: UnixNano_def int64_id)
  moreover have "0 \<le> t * 1000000" using t by simp
  ultimately show ?thesis
    by (simp add: tableNumber_def ObjectStorageIndexRequiredPeriod_def signed_divide_int_def sgn_if)
qed


lemma tableNumber_0: "tableNumber 0 = 0"
  by (simp add: tableNumber_def UnixNano_def int64_def)

lemma tableNumber_day1: "tableNumber 86400000 = 1"
  by (simp add: tableNumber_def UnixNano_def int64_def ObjectStorageIndexRequiredPeriod_def
      signed_divide_int_def)

lemma tableNumber_day11: "tableNumber 950400000 = 11"
  by (simp add: tableNumber_def UnixNano_def int64_def ObjectStorageIndexRequiredPeriod_def
      signed_divide_int_def)

lemma tableNumber_minus1: "tableNumber (- 1) = 0"
  by (simp add: tableNumber_def UnixNano_def int64_def ObjectStorageIndexRequiredPeriod_def
      signed_divide_int_def)

lemma tableNumber_minus_day: "tableNumber (- 86400000) = - 1"
  by (simp add: tableNumber_def UnixNano_def int64_def ObjectStorageIndexRequiredPeriod_def
      signed_divide_int_def)

lemma Itoa_evals:
  "Itoa 0 = ''0''" "Itoa 1 = ''1''" "Itoa (- 1) = ''-1''"
  by code_simp+

subsection \<open>The partitioner\<close>

lemma loop_ok:
  "\<forall>n\<in>{cur..end}. tr n = Some (cfg n) \<Longrightarrow>
   indexBuckets_loop tr cur end res =
     (res @ map (\<lambda>n. Prefix (IndexTables (cfg n)) @ Itoa n) [cur..end], None)"
proof (induction tr cur "end" res rule: indexBuckets_loop.induct)
  case (1 tr cur "end" res)
  show ?case
  proof (cases "cur \<le> end")
    case True
    then have c: "tr cur = Some (cfg cur)" using "1.prems" by simp
    have rest: "\<forall>n\<in>{cur + 1..end}. tr n = Some (cfg n)" using "1.prems" by simp
    have "indexBuckets_loop tr cur end res =
        indexBuckets_loop tr (cur + 1) end (res @ [Prefix (IndexTables (cfg cur)) @ Itoa cur])"
      using True c by (subst indexBuckets_loop.simps) (simp add: ConfigForTableNumber_def)
    also have "\<dots> = ((res @ [Prefix (IndexTables (cfg cur)) @ Itoa cur]) @
        map (\<lambda>n. Prefix (IndexTables (cfg n)) @ Itoa n) [cur + 1..end], None)"
      using "1.IH" [OF True _ rest, of "cfg cur"] c by (simp add: ConfigForTableNumber_def)
    finally show ?thesis using True by (simp add: upto_rec1 [of cur "end"])
  next
    case False
    then show ?thesis by (subst indexBuckets_loop.simps) simp
  qed
qed

lemma loop_first_gap:
  "\<exists>n\<in>{cur..end}. tr n = None \<Longrightarrow>
   \<exists>n\<in>{cur..end}. tr n = None \<and> (\<forall>k\<in>{cur..<n}. tr k \<noteq> None) \<and>
     indexBuckets_loop tr cur end res =
       ([], Some (ErrorString (''could not find config for table number '' @ Itoa n)))"
proof (induction tr cur "end" res rule: indexBuckets_loop.induct)
  case (1 tr cur "end" res)
  then obtain n0 where n0: "n0 \<in> {cur..end}" "tr n0 = None" by blast
  then have le: "cur \<le> end" by simp
  show ?case
  proof (cases "tr cur")
    case None
    have "indexBuckets_loop tr cur end res =
        ([], Some (ErrorString (''could not find config for table number '' @ Itoa cur)))"
      using None le by (subst indexBuckets_loop.simps) (simp add: ConfigForTableNumber_def)
    moreover have "cur \<in> {cur..end}" using le by simp
    moreover have "\<forall>k\<in>{cur..<cur}. tr k \<noteq> None" by simp
    ultimately show ?thesis using None by blast
  next
    case (Some c)
    then have c': "ConfigForTableNumber tr cur = Some c"
      by (simp add: ConfigForTableNumber_def)
    have "n0 \<noteq> cur" using n0 Some by auto
    then have "n0 \<in> {cur + 1..end}" using n0 by simp
    then have "\<exists>n\<in>{cur + 1..end}. tr n = None" using n0 by blast
    from "1.IH" [OF le c' this]
    obtain n where n: "n \<in> {cur + 1..end}" "tr n = None"
      "\<forall>k\<in>{cur + 1..<n}. tr k \<noteq> None"
      "indexBuckets_loop tr (cur + 1) end (res @ [Prefix (IndexTables c) @ Itoa cur]) =
         ([], Some (ErrorString (''could not find config for table number '' @ Itoa n)))"
      by blast
    have "indexBuckets_loop tr cur end res =
        indexBuckets_loop tr (cur + 1) end (res @ [Prefix (IndexTables c) @ Itoa cur])"
      using c' le by (subst indexBuckets_loop.simps) simp
    then have r: "indexBuckets_loop tr cur end res =
        ([], Some (ErrorString (''could not find config for table number '' @ Itoa n)))"
      using n(4) by simp
    have "n \<in> {cur..end}" using n(1) by simp
    moreover have "\<forall>k\<in>{cur..<n}. tr k \<noteq> None"
    proof
      fix k assume k: "k \<in> {cur..<n}"
      show "tr k \<noteq> None"
      proof (cases "k = cur")
        case True then show ?thesis using Some by simp
      next
        case False
        then have "k \<in> {cur + 1..<n}" using k by simp
        then show ?thesis using n(3) by blast
      qed
    qed
    ultimately show ?thesis using n(2) r by blast
  qed
qed

lemma indexBuckets_unfold:
  "indexBuckets from through tr =
     indexBuckets_loop tr (tableNumber from) (tableNumber through) []"
  by (simp add: indexBuckets_def tableNumber_def)

lemma key_inj:
  "inj_on (\<lambda>n. p @ Itoa n) A"
  by (rule inj_onI) (simp add: Itoa_inj)

text \<open>
  Claim C1, amended. Let the table numbers of \<open>from\<close> and \<open>through\<close> be their int64
  Unix-nanosecond values divided by the period with Go's division, which truncates toward
  zero (the floor for times from the epoch on). For every pair of times and every
  configuration that has an entry for each table number from the one of \<open>from\<close> to the
  one of \<open>through\<close>, \<open>indexBuckets\<close> returns no error and exactly one key per table
  number of that inclusive range, in increasing order of table number, each the
  configured prefix followed by the decimal table number; the keys are pairwise distinct
  when the configuration gives every table number of the range the same prefix.
\<close>

theorem indexBuckets_covered:
  assumes "\<forall>n\<in>{tableNumber from..tableNumber through}. tr n = Some (cfg n)"
  shows "indexBuckets from through tr =
           (map (\<lambda>n. Prefix (IndexTables (cfg n)) @ Itoa n)
              [tableNumber from..tableNumber through], None) \<and>
         ((\<forall>n\<in>{tableNumber from..tableNumber through}. Prefix (IndexTables (cfg n)) = p) \<longrightarrow>
            distinct (fst (indexBuckets from through tr)))"
proof
  show r: "indexBuckets from through tr =
      (map (\<lambda>n. Prefix (IndexTables (cfg n)) @ Itoa n) [tableNumber from..tableNumber through], None)"
    using loop_ok [OF assms, of "[]"] by (simp add: indexBuckets_unfold)
  show "(\<forall>n\<in>{tableNumber from..tableNumber through}. Prefix (IndexTables (cfg n)) = p) \<longrightarrow>
      distinct (fst (indexBuckets from through tr))"
  proof
    assume same: "\<forall>n\<in>{tableNumber from..tableNumber through}. Prefix (IndexTables (cfg n)) = p"
    have "map (\<lambda>n. Prefix (IndexTables (cfg n)) @ Itoa n) [tableNumber from..tableNumber through] =
        map (\<lambda>n. p @ Itoa n) [tableNumber from..tableNumber through]"
      using same by (intro map_cong) simp_all
    moreover have "distinct (map (\<lambda>n. p @ Itoa n) [tableNumber from..tableNumber through])"
      by (simp add: distinct_map key_inj)
    ultimately show "distinct (fst (indexBuckets from through tr))"
      by (simp only: r fst_conv)
  qed
qed

theorem indexBuckets_covered_witness:
  "indexBuckets 0 86400000 everyTable = ([''index_0'', ''index_1''], None) \<and>
   distinct (fst (indexBuckets 0 86400000 everyTable))"
proof -
  have h: "\<forall>n\<in>{tableNumber 0..tableNumber 86400000}. everyTable n = Some (periodConfig ''index_'')"
    by (simp add: everyTable_def)
  have u: "[0..1] = [0, 1::int]" by (simp add: upto_rec1)
  show ?thesis
    using indexBuckets_covered [OF h, of "''index_''"]
    by (simp add: tableNumber_0 tableNumber_day1 u periodConfig_def Itoa_evals)
qed

text \<open>
  The claim as first stated fails twice. One millisecond before the epoch the floor of
  the quotient is -1 where the code computes 0, so the key of table -1 is not returned
  although it is configured. And when table 1 has the prefix \<open>index_1\<close> and the tables
  after it the prefix \<open>index_\<close>, days 1 to 11 give the key \<open>index_11\<close> twice.
\<close>

theorem indexBuckets_counterexample:
  "(- 1 * 1000000) div ObjectStorageIndexRequiredPeriod = - 1 \<and>
   (0 * 1000000) div ObjectStorageIndexRequiredPeriod = 0 \<and>
   everyTable (- 1) \<noteq> None \<and> everyTable 0 \<noteq> None \<and>
   indexBuckets (- 1) 0 everyTable = ([''index_0''], None) \<and>
   indexBuckets 86400000 950400000 twoPrefixes =
     ([''index_11'', ''index_2'', ''index_3'', ''index_4'', ''index_5'', ''index_6'',
       ''index_7'', ''index_8'', ''index_9'', ''index_10'', ''index_11''], None) \<and>
   \<not> distinct (fst (indexBuckets 86400000 950400000 twoPrefixes))"
  by code_simp

text \<open>
  Claim C6, amended. With the table numbers of C1 (Go's truncating quotient): for every
  interval whose range of table numbers holds one without a configuration entry,
  \<open>indexBuckets\<close> returns the \<open>nil\<close> sequence and an error that names the smallest
  such table number.
\<close>

theorem indexBuckets_gap:
  assumes "\<exists>n\<in>{tableNumber from..tableNumber through}. tr n = None"
  shows "\<exists>n\<in>{tableNumber from..tableNumber through}. tr n = None \<and>
           (\<forall>k\<in>{tableNumber from..<n}. tr k \<noteq> None) \<and>
           indexBuckets from through tr =
             ([], Some (ErrorString (''could not find config for table number '' @ Itoa n)))"
  using loop_first_gap [OF assms, of "[]"] by (simp add: indexBuckets_unfold)

theorem indexBuckets_gap_witness:
  "indexBuckets (- 86400000) 0 fromEpoch =
     ([], Some (ErrorString ''could not find config for table number -1''))"
proof -
  have "fromEpoch (- 1) = None" by (simp add: fromEpoch_def)
  then have h: "\<exists>n\<in>{tableNumber (- 86400000)..tableNumber 0}. fromEpoch n = None"
    by (intro bexI [of _ "- 1"]) (simp_all add: tableNumber_0 tableNumber_minus_day)
  from indexBuckets_gap [OF h]
  obtain n where n: "n \<in> {- 1..0}" "fromEpoch n = None"
    "indexBuckets (- 86400000) 0 fromEpoch =
       ([], Some (ErrorString (''could not find config for table number '' @ Itoa n)))"
    by (auto simp: tableNumber_0 tableNumber_minus_day)
  have "n = - 1" using n(1,2) by (auto simp: fromEpoch_def split: if_splits)
  then show ?thesis using n(3) by (simp add: Itoa_evals)
qed

text \<open>
  With the floor the claim fails: one millisecond before the epoch the floor is table -1,
  which \<open>fromEpoch\<close> does not configure, and the code, which starts at table 0, returns
  a key and no error.
\<close>

theorem indexBuckets_gap_counterexample:
  "(- 1 * 1000000) div ObjectStorageIndexRequiredPeriod = - 1 \<and>
   fromEpoch (- 1) = None \<and>
   indexBuckets (- 1) 0 fromEpoch = ([''index_0''], None)"
  by code_simp

subsection \<open>Grouping the chunks of a series\<close>

lemma holdsAt_appendAt:
  "holdsAt (appendAt m k x) k' x' \<longleftrightarrow> holdsAt m k' x' \<or> (k' = k \<and> x' = x)"
  by (auto simp: holdsAt_def appendAt_lookup split: option.splits)

lemma holdsAt_Nil [simp]: "\<not> holdsAt [] k x"
  by (simp add: holdsAt_def)

lemma appendAll_keys:
  "fst ` set (foldl (\<lambda>pds bucket. appendAt pds bucket chk) pds ks) = fst ` set pds \<union> set ks"
  by (induction ks arbitrary: pds) (auto simp: appendAt_keys)

lemma appendAll_distinct:
  "distinct (map fst pds) \<Longrightarrow>
   distinct (map fst (foldl (\<lambda>pds bucket. appendAt pds bucket chk) pds ks))"
  by (induction ks arbitrary: pds) (simp_all add: appendAt_distinct)

lemma appendAll_holdsAt:
  "holdsAt (foldl (\<lambda>pds bucket. appendAt pds bucket chk) pds ks) k x \<longleftrightarrow>
     holdsAt pds k x \<or> (k \<in> set ks \<and> x = chk)"
  by (induction ks arbitrary: pds) (auto simp: holdsAt_appendAt)

lemma chunksLoop_ok:
  "chunksLoop tr chks pds = (pds', None) \<Longrightarrow>
   fst ` set pds' = fst ` set pds \<union> (\<Union>chk\<in>set chks. set (chunkKeys tr chk)) \<and>
   (distinct (map fst pds) \<longrightarrow> distinct (map fst pds')) \<and>
   (\<forall>k x. holdsAt pds' k x \<longleftrightarrow> holdsAt pds k x \<or> (x \<in> set chks \<and> k \<in> set (chunkKeys tr x)))"
proof (induction chks arbitrary: pds)
  case Nil
  then show ?case by simp
next
  case (Cons chk chks)
  obtain ks e where ib: "indexBuckets (From chk) (Through chk) tr = (ks, e)" by fastforce
  show ?case
  proof (cases e)
    case (Some err)
    then show ?thesis using Cons.prems ib by simp
  next
    case None
    let ?pds1 = "foldl (\<lambda>pds bucket. appendAt pds bucket chk) pds ks"
    have run: "chunksLoop tr chks ?pds1 = (pds', None)" using Cons.prems ib None by simp
    have ck: "chunkKeys tr chk = ks" by (simp add: chunkKeys_def ib)
    from Cons.IH [OF run] show ?thesis
      by (auto simp: appendAll_keys appendAll_distinct appendAll_holdsAt ck)
  qed
qed

lemma chunksLoop_error:
  "snd (chunksLoop tr chks pds) = None \<longleftrightarrow>
     (\<forall>chk\<in>set chks. snd (indexBuckets (From chk) (Through chk) tr) = None)"
proof (induction chks arbitrary: pds)
  case Nil
  then show ?case by simp
next
  case (Cons chk chks)
  obtain ks e where ib: "indexBuckets (From chk) (Through chk) tr = (ks, e)" by fastforce
  show ?case using Cons.IH ib by (cases e) simp_all
qed

subsection \<open>Adding a series to the builders\<close>

lemma seriesLoop_run:
  "seriesLoop wt fp es (periods, w) = (periods', w') \<Longrightarrow>
   \<exists>tr. calls w' = calls w @ tr \<and> (\<forall>c\<in>set tr. builderCall c) \<and>
     (\<forall>pd ls fp' cs. AddSeriesCall pd ls fp' cs \<in> set tr \<longleftrightarrow>
        (pd, cs) \<in> set es \<and> ls = wt \<and> fp' = fp)"
proof (induction es arbitrary: periods w)
  case Nil
  then show ?case by simp
next
  case (Cons e es)
  obtain pd cs where e: "e = (pd, cs)" by (cases e)
  show ?case
  proof (cases "map_of periods pd")
    case None
    let ?p1 = "AList.update pd (AddSeries wt fp cs NewBuilder) (AList.update pd NewBuilder periods)"
    let ?w1 = "called (AddSeriesCall pd wt fp cs) (called (NewBuilderCall pd) w)"
    have "seriesLoop wt fp es (?p1, ?w1) = (periods', w')"
      using Cons.prems e None by simp
    from Cons.IH [OF this] obtain tr where tr: "calls w' = calls ?w1 @ tr"
      "\<forall>c\<in>set tr. builderCall c"
      "\<forall>pd ls fp' cs. AddSeriesCall pd ls fp' cs \<in> set tr \<longleftrightarrow> (pd, cs) \<in> set es \<and> ls = wt \<and> fp' = fp"
      by blast
    let ?tr = "[NewBuilderCall pd, AddSeriesCall pd wt fp cs] @ tr"
    have "calls w' = calls w @ ?tr" using tr(1) by simp
    moreover have "\<forall>c\<in>set ?tr. builderCall c" using tr(2) by simp
    moreover have "\<forall>pd' ls fp' cs'. AddSeriesCall pd' ls fp' cs' \<in> set ?tr \<longleftrightarrow>
        (pd', cs') \<in> set (e # es) \<and> ls = wt \<and> fp' = fp"
      using tr(3) e by auto
    ultimately show ?thesis by blast
  next
    case (Some b)
    let ?p1 = "AList.update pd (AddSeries wt fp cs b) periods"
    let ?w1 = "called (AddSeriesCall pd wt fp cs) w"
    have "seriesLoop wt fp es (?p1, ?w1) = (periods', w')"
      using Cons.prems e Some by simp
    from Cons.IH [OF this] obtain tr where tr: "calls w' = calls ?w1 @ tr"
      "\<forall>c\<in>set tr. builderCall c"
      "\<forall>pd ls fp' cs. AddSeriesCall pd ls fp' cs \<in> set tr \<longleftrightarrow> (pd, cs) \<in> set es \<and> ls = wt \<and> fp' = fp"
      by blast
    let ?tr = "[AddSeriesCall pd wt fp cs] @ tr"
    have "calls w' = calls w @ ?tr" using tr(1) by simp
    moreover have "\<forall>c\<in>set ?tr. builderCall c" using tr(2) by simp
    moreover have "\<forall>pd' ls fp' cs'. AddSeriesCall pd' ls fp' cs' \<in> set ?tr \<longleftrightarrow>
        (pd', cs') \<in> set (e # es) \<and> ls = wt \<and> fp' = fp"
      using tr(3) e by auto
    ultimately show ?thesis by blast
  qed
qed

lemma seriesLoop_keys:
  "seriesLoop wt fp es (periods, w) = (periods', w') \<Longrightarrow>
   fst ` set periods' = fst ` set periods \<union> fst ` set es \<and>
   (distinct (map fst periods) \<longrightarrow> distinct (map fst periods'))"
proof (induction es arbitrary: periods w)
  case Nil
  then show ?case by simp
next
  case (Cons e es)
  obtain pd cs where e: "e = (pd, cs)" by (cases e)
  show ?case
  proof (cases "map_of periods pd")
    case None
    let ?p1 = "AList.update pd (AddSeries wt fp cs NewBuilder) (AList.update pd NewBuilder periods)"
    let ?w1 = "called (AddSeriesCall pd wt fp cs) (called (NewBuilderCall pd) w)"
    have "seriesLoop wt fp es (?p1, ?w1) = (periods', w')"
      using Cons.prems e None by simp
    from Cons.IH [OF this] show ?thesis
      using e by (auto simp: dom_update distinct_update)
  next
    case (Some b)
    let ?p1 = "AList.update pd (AddSeries wt fp cs b) periods"
    let ?w1 = "called (AddSeriesCall pd wt fp cs) w"
    have "seriesLoop wt fp es (?p1, ?w1) = (periods', w')"
      using Cons.prems e Some by simp
    from Cons.IH [OF this] show ?thesis
      using e by (auto simp: dom_update distinct_update)
  qed
qed

lemma seriesLoop_world:
  "seriesLoop wt fp es (periods, w) = (periods', w') \<Longrightarrow>
   logs w' = logs w \<and> tsdbCreationsTotal w' = tsdbCreationsTotal w \<and>
   tsdbCreationFailures w' = tsdbCreationFailures w"
proof (induction es arbitrary: periods w)
  case Nil
  then show ?case by simp
next
  case (Cons e es)
  obtain pd cs where e: "e = (pd, cs)" by (cases e)
  show ?case
    using Cons.prems e
    by (cases "map_of periods pd") (auto dest!: Cons.IH simp: called_def)
qed

subsection \<open>Visiting one series\<close>

lemma visit_error:
  "visit env m user ls chks pw = (Some e, pw') \<Longrightarrow> pw' = pw"
  by (auto simp: visit_def Let_def split: prod.splits option.splits)

lemma visit_result:
  "fst (visit env m user ls chks pw) = None \<longleftrightarrow>
     (\<forall>chk\<in>set chks. snd (indexBuckets (From chk) (Through chk) (tableRanges m)) = None)"
proof -
  obtain pds e where c: "chunksLoop (tableRanges m) chks [] = (pds, e)" by fastforce
  have "fst (visit env m user ls chks pw) = None \<longleftrightarrow> e = None"
    using c by (cases e) (simp_all add: visit_def)
  then show ?thesis using chunksLoop_error [of "tableRanges m" chks "[]"] c by simp
qed

lemma visit_run:
  assumes "visit env m user ls chks (periods, w) = (r, periods', w')"
  shows "\<exists>tr. calls w' = calls w @ tr \<and> (\<forall>c\<in>set tr. builderCall c) \<and>
     (\<forall>pd ls' fp cs. AddSeriesCall pd ls' fp cs \<in> set tr \<longrightarrow>
        ls' = Builder_Set env ls (TenantLabel env) user \<and> fp = Hash env ls)"
proof -
  obtain pds e where c: "chunksLoop (tableRanges m) chks [] = (pds, e)" by fastforce
  show ?thesis
  proof (cases e)
    case (Some err)
    then have "w' = w" using assms c by (simp add: visit_def)
    then show ?thesis by simp
  next
    case None
    then have "seriesLoop (Builder_Set env ls (TenantLabel env) user) (Hash env ls)
        (rangeMap (rangeOrder env) pds) (periods, w) = (periods', w')"
      using assms c by (simp add: visit_def)
    from seriesLoop_run [OF this] show ?thesis by blast
  qed
qed

lemma visit_world:
  assumes "visit env m user ls chks (periods, w) = (r, periods', w')"
  shows "logs w' = logs w \<and> tsdbCreationsTotal w' = tsdbCreationsTotal w \<and>
     tsdbCreationFailures w' = tsdbCreationFailures w"
proof -
  obtain pds e where c: "chunksLoop (tableRanges m) chks [] = (pds, e)" by fastforce
  show ?thesis
  proof (cases e)
    case (Some err)
    then have "w' = w" using assms c by (simp add: visit_def)
    then show ?thesis by simp
  next
    case None
    then have "seriesLoop (Builder_Set env ls (TenantLabel env) user) (Hash env ls)
        (rangeMap (rangeOrder env) pds) (periods, w) = (periods', w')"
      using assms c by (simp add: visit_def)
    from seriesLoop_world [OF this] show ?thesis .
  qed
qed

lemma visit_keys:
  assumes "visit env m user ls chks (periods, w) = (None, periods', w')"
    and "eachKeyOnce (rangeOrder env)"
  shows "fst ` set periods' = fst ` set periods \<union> (\<Union>chk\<in>set chks. set (chunkKeys (tableRanges m) chk)) \<and>
     (distinct (map fst periods) \<longrightarrow> distinct (map fst periods'))"
proof -
  obtain pds e where c: "chunksLoop (tableRanges m) chks [] = (pds, e)" by fastforce
  have e: "e = None" using assms(1) c by (cases e) (simp_all add: visit_def)
  have run: "seriesLoop (Builder_Set env ls (TenantLabel env) user) (Hash env ls)
      (rangeMap (rangeOrder env) pds) (periods, w) = (periods', w')"
    using assms(1) c e by (simp add: visit_def)
  have pds: "fst ` set pds = (\<Union>chk\<in>set chks. set (chunkKeys (tableRanges m) chk))"
    "distinct (map fst pds)"
    using chunksLoop_ok [OF c [unfolded e]] by simp_all
  have "fst ` set (rangeMap (rangeOrder env) pds) = fst ` set pds"
    using rangeMap_once(2) [OF assms(2) pds(2)] by simp
  then show ?thesis using seriesLoop_keys [OF run] pds(1) by simp
qed

lemma visit_complete:
  assumes "visit env m user ls chks (periods, w) = (None, periods', w')"
    and "eachKeyOnce (rangeOrder env)"
    and "chk \<in> set chks" "k \<in> set (chunkKeys (tableRanges m) chk)"
  shows "\<exists>cs. AddSeriesCall k (Builder_Set env ls (TenantLabel env) user) (Hash env ls) cs
           \<in> set (newCalls w w') \<and> chk \<in> set cs"
proof -
  obtain pds e where c: "chunksLoop (tableRanges m) chks [] = (pds, e)" by fastforce
  have e: "e = None" using assms(1) c by (cases e) (simp_all add: visit_def)
  have run: "seriesLoop (Builder_Set env ls (TenantLabel env) user) (Hash env ls)
      (rangeMap (rangeOrder env) pds) (periods, w) = (periods', w')"
    using assms(1) c e by (simp add: visit_def)
  have d: "distinct (map fst pds)" using chunksLoop_ok [OF c [unfolded e]] by simp
  have "holdsAt pds k chk" using chunksLoop_ok [OF c [unfolded e]] assms(3,4) by simp
  then obtain cs where cs: "map_of pds k = Some cs" "chk \<in> set cs"
    by (auto simp: holdsAt_def split: option.splits)
  have mem: "(k, cs) \<in> set (rangeMap (rangeOrder env) pds)"
    using rangeMap_complete [OF assms(2) d cs(1)] .
  from seriesLoop_run [OF run] obtain tr where tr: "calls w' = calls w @ tr"
    "\<forall>pd ls' fp' cs. AddSeriesCall pd ls' fp' cs \<in> set tr \<longleftrightarrow>
       (pd, cs) \<in> set (rangeMap (rangeOrder env) pds) \<and>
       ls' = Builder_Set env ls (TenantLabel env) user \<and> fp' = Hash env ls"
    by blast
  have "AddSeriesCall k (Builder_Set env ls (TenantLabel env) user) (Hash env ls) cs \<in> set tr"
    using tr(2) mem by blast
  then show ?thesis using newCalls_eq [OF tr(1)] cs(2) by auto
qed

subsection \<open>Visiting every series\<close>

lemma newCalls_trans:
  "calls w1 = calls w @ a \<Longrightarrow> calls w2 = calls w1 @ b \<Longrightarrow>
   newCalls w w2 = newCalls w w1 @ newCalls w1 w2"
  by (simp add: newCalls_def)

lemma forAll_loop_append:
  "forAll_loop (xs @ ys) fn s =
     (case forAll_loop xs fn s of
        (Some e, s') \<Rightarrow> (Some e, s')
      | (None, s') \<Rightarrow> forAll_loop ys fn s')"
proof (induction xs arbitrary: s)
  case Nil
  then show ?case by simp
next
  case (Cons x xs)
  obtain user ls chks where x: "x = (user, ls, chks)" by (cases x)
  obtain r s1 where f: "fn user ls chks s = (r, s1)" by fastforce
  show ?case using x f Cons.IH [of s1] by (cases r) simp_all
qed

lemma forAll_run:
  "forAll_loop ss (visit env m) (periods, w) = (r, periods', w') \<Longrightarrow>
   \<exists>tr. calls w' = calls w @ tr \<and> (\<forall>c\<in>set tr. builderCall c) \<and>
     (\<forall>pd ls' fp cs. AddSeriesCall pd ls' fp cs \<in> set tr \<longrightarrow>
        (\<exists>user ls chks. (user, ls, chks) \<in> set ss \<and>
           ls' = Builder_Set env ls (TenantLabel env) user \<and> fp = Hash env ls))"
proof (induction ss arbitrary: periods w)
  case Nil
  then show ?case by simp
next
  case (Cons s ss)
  obtain user ls chks where s: "s = (user, ls, chks)" by (cases s)
  obtain r1 p1 w1 where v: "visit env m user ls chks (periods, w) = (r1, p1, w1)"
    by (cases "visit env m user ls chks (periods, w)")
  from visit_run [OF v] obtain tr1 where tr1: "calls w1 = calls w @ tr1"
    "\<forall>c\<in>set tr1. builderCall c"
    "\<forall>pd ls' fp cs. AddSeriesCall pd ls' fp cs \<in> set tr1 \<longrightarrow>
       ls' = Builder_Set env ls (TenantLabel env) user \<and> fp = Hash env ls"
    by blast
  show ?case
  proof (cases r1)
    case (Some e)
    then have "w' = w1" using Cons.prems s v by simp
    then have "calls w' = calls w @ tr1" using tr1(1) by simp
    moreover have "\<forall>pd ls' fp cs. AddSeriesCall pd ls' fp cs \<in> set tr1 \<longrightarrow>
        (\<exists>user ls chks. (user, ls, chks) \<in> set (s # ss) \<and>
           ls' = Builder_Set env ls (TenantLabel env) user \<and> fp = Hash env ls)"
      using tr1(3) s by fastforce
    ultimately show ?thesis using tr1(2) by blast
  next
    case None
    then have "forAll_loop ss (visit env m) (p1, w1) = (r, periods', w')"
      using Cons.prems s v by simp
    from Cons.IH [OF this] obtain tr2 where tr2: "calls w' = calls w1 @ tr2"
      "\<forall>c\<in>set tr2. builderCall c"
      "\<forall>pd ls' fp cs. AddSeriesCall pd ls' fp cs \<in> set tr2 \<longrightarrow>
        (\<exists>user ls chks. (user, ls, chks) \<in> set ss \<and>
           ls' = Builder_Set env ls (TenantLabel env) user \<and> fp = Hash env ls)"
      by blast
    have "calls w' = calls w @ (tr1 @ tr2)" using tr1(1) tr2(1) by simp
    moreover have "\<forall>c\<in>set (tr1 @ tr2). builderCall c" using tr1(2) tr2(2) by auto
    moreover have "\<forall>pd ls' fp cs. AddSeriesCall pd ls' fp cs \<in> set (tr1 @ tr2) \<longrightarrow>
        (\<exists>user ls chks. (user, ls, chks) \<in> set (s # ss) \<and>
           ls' = Builder_Set env ls (TenantLabel env) user \<and> fp = Hash env ls)"
    proof (intro allI impI)
      fix pd ls' fp cs
      assume "AddSeriesCall pd ls' fp cs \<in> set (tr1 @ tr2)"
      then consider "AddSeriesCall pd ls' fp cs \<in> set tr1" | "AddSeriesCall pd ls' fp cs \<in> set tr2"
        by auto
      then show "\<exists>user ls chks. (user, ls, chks) \<in> set (s # ss) \<and>
           ls' = Builder_Set env ls (TenantLabel env) user \<and> fp = Hash env ls"
      proof cases
        case 1
        then show ?thesis using tr1(3) s by fastforce
      next
        case 2
        then obtain user' ls'' chks' where "(user', ls'', chks') \<in> set ss"
          "ls' = Builder_Set env ls'' (TenantLabel env) user'" "fp = Hash env ls''"
          using tr2(3) by blast
        then show ?thesis by fastforce
      qed
    qed
    ultimately show ?thesis by blast
  qed
qed

lemma forAll_world:
  "forAll_loop ss (visit env m) (periods, w) = (r, periods', w') \<Longrightarrow>
   logs w' = logs w \<and> tsdbCreationsTotal w' = tsdbCreationsTotal w \<and>
   tsdbCreationFailures w' = tsdbCreationFailures w"
proof (induction ss arbitrary: periods w)
  case Nil
  then show ?case by simp
next
  case (Cons s ss)
  obtain user ls chks where s: "s = (user, ls, chks)" by (cases s)
  obtain r1 p1 w1 where v: "visit env m user ls chks (periods, w) = (r1, p1, w1)"
    by (cases "visit env m user ls chks (periods, w)")
  note w1 = visit_world [OF v]
  show ?case
  proof (cases r1)
    case (Some e)
    then have "w' = w1" using Cons.prems s v by simp
    then show ?thesis using w1 by simp
  next
    case None
    then have "forAll_loop ss (visit env m) (p1, w1) = (r, periods', w')"
      using Cons.prems s v by simp
    from Cons.IH [OF this] show ?thesis using w1 by simp
  qed
qed

lemma forAll_result:
  "fst (forAll_loop ss (visit env m) pw) = None \<longleftrightarrow>
     (\<forall>(user, ls, chks)\<in>set ss. \<forall>chk\<in>set chks.
        snd (indexBuckets (From chk) (Through chk) (tableRanges m)) = None)"
proof (induction ss arbitrary: pw)
  case Nil
  then show ?case by simp
next
  case (Cons s ss)
  obtain user ls chks where s: "s = (user, ls, chks)" by (cases s)
  obtain r1 pw1 where v: "visit env m user ls chks pw = (r1, pw1)"
    by (cases "visit env m user ls chks pw")
  have r1: "r1 = None \<longleftrightarrow>
      (\<forall>chk\<in>set chks. snd (indexBuckets (From chk) (Through chk) (tableRanges m)) = None)"
    using visit_result [of env m user ls chks pw] v by simp
  show ?case
  proof (cases r1)
    case (Some e)
    then show ?thesis using s v r1 by auto
  next
    case None
    then show ?thesis using s v r1 Cons.IH [of pw1] by auto
  qed
qed

lemma forAll_keys:
  "forAll_loop ss (visit env m) (periods, w) = (None, periods', w') \<Longrightarrow>
   eachKeyOnce (rangeOrder env) \<Longrightarrow>
   fst ` set periods' = fst ` set periods \<union>
     set (concat (map (\<lambda>(user, ls, chks). concat (map (chunkKeys (tableRanges m)) chks)) ss)) \<and>
   (distinct (map fst periods) \<longrightarrow> distinct (map fst periods'))"
proof (induction ss arbitrary: periods w)
  case Nil
  then show ?case by simp
next
  case (Cons s ss)
  obtain user ls chks where s: "s = (user, ls, chks)" by (cases s)
  obtain r1 p1 w1 where v: "visit env m user ls chks (periods, w) = (r1, p1, w1)"
    by (cases "visit env m user ls chks (periods, w)")
  have r1: "r1 = None" using Cons.prems(1) s v by (cases r1) simp_all
  have rest: "forAll_loop ss (visit env m) (p1, w1) = (None, periods', w')"
    using Cons.prems(1) s v r1 by simp
  note k1 = visit_keys [OF v [unfolded r1] Cons.prems(2)]
  note k2 = Cons.IH [OF rest Cons.prems(2)]
  show ?case using k1 k2 s by auto
qed

lemma forAll_complete:
  "forAll_loop ss (visit env m) (periods, w) = (None, periods', w') \<Longrightarrow>
   eachKeyOnce (rangeOrder env) \<Longrightarrow>
   (user, ls, chks) \<in> set ss \<Longrightarrow> chk \<in> set chks \<Longrightarrow>
   k \<in> set (chunkKeys (tableRanges m) chk) \<Longrightarrow>
   \<exists>cs. AddSeriesCall k (Builder_Set env ls (TenantLabel env) user) (Hash env ls) cs
           \<in> set (newCalls w w') \<and> chk \<in> set cs"
proof (induction ss arbitrary: periods w)
  case Nil
  then show ?case by simp
next
  case (Cons s ss)
  obtain user1 ls1 chks1 where s: "s = (user1, ls1, chks1)" by (cases s)
  obtain r1 p1 w1 where v: "visit env m user1 ls1 chks1 (periods, w) = (r1, p1, w1)"
    by (cases "visit env m user1 ls1 chks1 (periods, w)")
  have r1: "r1 = None" using Cons.prems(1) s v by (cases r1) simp_all
  have rest: "forAll_loop ss (visit env m) (p1, w1) = (None, periods', w')"
    using Cons.prems(1) s v r1 by simp
  from visit_run [OF v] obtain tr1 where tr1: "calls w1 = calls w @ tr1" by blast
  from forAll_run [OF rest] obtain tr2 where tr2: "calls w' = calls w1 @ tr2" by blast
  note split = newCalls_trans [OF tr1 tr2]
  show ?case
  proof (cases "(user, ls, chks) = s")
    case True
    then have "user1 = user" "ls1 = ls" "chks1 = chks" using s by simp_all
    then show ?thesis
      using visit_complete [OF v [unfolded r1] Cons.prems(2), of chk k] Cons.prems(4,5) split
      by auto
  next
    case False
    then have "(user, ls, chks) \<in> set ss" using Cons.prems(3) by simp
    from Cons.IH [OF rest Cons.prems(2) this Cons.prems(4,5)]
    show ?thesis using split by auto
  qed
qed

subsection \<open>Building and registering the periods\<close>

lemma Build_result:
  assumes "Build env w b sd (createFn dst) = (res, err)"
  shows "(err = None \<and> res = Some dst) \<or> (err \<noteq> None \<and> res = None)"
proof (cases "writeIndex env w b sd")
  case (Inl e)
  then have "Build env w b sd (createFn dst) = (None, Some e)" by (simp add: Build_def)
  then show ?thesis using assms by simp
next
  case (Inr x)
  obtain lo hi checksum where x: "x = (lo, hi, checksum)" by (cases x)
  show ?thesis
  proof (cases "moveIndex env w sd dst")
    case None
    then have "Build env w b sd (createFn dst) = (Some dst, None)"
      using Inr x by (simp add: Build_def createFn_def)
    then show ?thesis using assms by simp
  next
    case (Some e)
    then have "Build env w b sd (createFn dst) = (None, Some e)"
      using Inr x by (simp add: Build_def createFn_def)
    then show ?thesis using assms by simp
  qed
qed

lemma buildPeriod_run:
  assumes "buildPeriod env m t (p, b) w = (r, w')"
  shows "\<exists>tr. calls w' = calls w @ tr \<and>
     ((\<exists>e. r = Some e \<and> tr = [BuildCall p (managerScratchDir env (dir m)) None (Some e)]) \<or>
      (\<exists>e f. r = Some e \<and>
         tr = [BuildCall p (managerScratchDir env (dir m)) (Some (destination env m t p)) None,
               OpenCall (destination env m t p) False f (Some e)]) \<or>
      (\<exists>f. tr = [BuildCall p (managerScratchDir env (dir m)) (Some (destination env m t p)) None,
               OpenCall (destination env m t p) False f None,
               AddIndexCall p [] f r]))"
proof -
  let ?dst = "destination env m t p"
  let ?w1 = "Log LevelDebug
      [(''msg'', S ''building tsdb for period''), (''pd'', S p), (''dst'', PathOf ?dst)] w"
  obtain res err where B: "Build env ?w1 b (managerScratchDir env (dir m)) (createFn ?dst) = (res, err)"
    by fastforce
  note R = Build_result [OF B]
  show ?thesis
  proof (cases err)
    case (Some e)
    then have "res = None" using R by simp
    then show ?thesis using assms B Some
      by (auto simp: buildPeriod_def destination_def Let_def)
  next
    case None
    then have res: "res = Some ?dst" using R by simp
    let ?w3 = "Log LevelDebug
        [(''msg'', S ''finished building tsdb for period''), (''pd'', S p),
         (''dst'', PathOf ?dst), (''duration'', Elapsed)]
        (called (BuildCall p (managerScratchDir env (dir m)) res err) ?w1)"
    obtain f oe where O: "NewShippableTSDBFile env ?w3 ?dst False = (f, oe)" by fastforce
    show ?thesis
    proof (cases oe)
      case (Some e)
      then show ?thesis using assms B None res O
        by (auto simp: buildPeriod_def destination_def Let_def)
    next
      case oeNone: None
      then show ?thesis using assms B None res O
        by (auto simp: buildPeriod_def destination_def Let_def)
    qed
  qed
qed

lemma buildPeriod_world:
  assumes "buildPeriod env m t pb w = (r, w')"
  shows "tsdbCreationsTotal w' = tsdbCreationsTotal w \<and>
     tsdbCreationFailures w' = tsdbCreationFailures w"
  using assms
  by (auto simp: buildPeriod_def Let_def split: prod.splits option.splits)

lemma buildPeriod_calls:
  assumes "buildPeriod env m t (p, b) w = (r, w')"
  shows "\<exists>tr. calls w' = calls w @ tr \<and> (\<forall>c\<in>set tr. \<not> builderCall c) \<and>
     (\<forall>q sd d err. BuildCall q sd (Some d) err \<in> set tr \<longrightarrow> d = destination env m t q)"
proof -
  from buildPeriod_run [OF assms] obtain tr where tr: "calls w' = calls w @ tr"
    and shape:
      "(\<exists>e. r = Some e \<and> tr = [BuildCall p (managerScratchDir env (dir m)) None (Some e)]) \<or>
       (\<exists>e f. r = Some e \<and>
          tr = [BuildCall p (managerScratchDir env (dir m)) (Some (destination env m t p)) None,
                OpenCall (destination env m t p) False f (Some e)]) \<or>
       (\<exists>f. tr = [BuildCall p (managerScratchDir env (dir m)) (Some (destination env m t p)) None,
                OpenCall (destination env m t p) False f None,
                AddIndexCall p [] f r])"
    by blast
  have "(\<forall>c\<in>set tr. \<not> builderCall c) \<and>
     (\<forall>q sd d err. BuildCall q sd (Some d) err \<in> set tr \<longrightarrow> d = destination env m t q)"
    using shape
  proof (elim disjE exE conjE)
    fix e assume "tr = [BuildCall p (managerScratchDir env (dir m)) None (Some e)]"
    then show ?thesis by simp
  next
    fix e f
    assume "tr = [BuildCall p (managerScratchDir env (dir m)) (Some (destination env m t p)) None,
                OpenCall (destination env m t p) False f (Some e)]"
    then show ?thesis by simp
  next
    fix f
    assume "tr = [BuildCall p (managerScratchDir env (dir m)) (Some (destination env m t p)) None,
                OpenCall (destination env m t p) False f None,
                AddIndexCall p [] f r]"
    then show ?thesis by simp
  qed
  then show ?thesis using tr by blast
qed

lemma periodsLoop_run:
  "periodsLoop env m t es w = (r, w') \<Longrightarrow>
   \<exists>tr. calls w' = calls w @ tr \<and> (\<forall>c\<in>set tr. \<not> builderCall c) \<and>
     (\<forall>p sd d err. BuildCall p sd (Some d) err \<in> set tr \<longrightarrow> d = destination env m t p)"
proof (induction es arbitrary: w)
  case Nil
  then show ?case by simp
next
  case (Cons pb es)
  obtain p b where pb: "pb = (p, b)" by (cases pb)
  obtain r1 w1 where bp: "buildPeriod env m t (p, b) w = (r1, w1)" by fastforce
  from buildPeriod_calls [OF bp] obtain tr1 where tr1: "calls w1 = calls w @ tr1"
    "\<forall>c\<in>set tr1. \<not> builderCall c"
    "\<forall>p sd d err. BuildCall p sd (Some d) err \<in> set tr1 \<longrightarrow> d = destination env m t p"
    by blast
  show ?case
  proof (cases r1)
    case (Some e)
    then have "w' = w1" using Cons.prems pb bp by simp
    then show ?thesis using tr1 by blast
  next
    case None
    then have "periodsLoop env m t es w1 = (r, w')" using Cons.prems pb bp by simp
    from Cons.IH [OF this] obtain tr2 where tr2: "calls w' = calls w1 @ tr2"
      "\<forall>c\<in>set tr2. \<not> builderCall c"
      "\<forall>p sd d err. BuildCall p sd (Some d) err \<in> set tr2 \<longrightarrow> d = destination env m t p"
      by blast
    have "calls w' = calls w @ (tr1 @ tr2)" using tr1(1) tr2(1) by simp
    moreover have "\<forall>c\<in>set (tr1 @ tr2). \<not> builderCall c" using tr1(2) tr2(2) by auto
    moreover have "\<forall>p sd d err. BuildCall p sd (Some d) err \<in> set (tr1 @ tr2) \<longrightarrow>
        d = destination env m t p"
    proof (intro allI impI)
      fix p sd d err
      assume "BuildCall p sd (Some d) err \<in> set (tr1 @ tr2)"
      then consider "BuildCall p sd (Some d) err \<in> set tr1" | "BuildCall p sd (Some d) err \<in> set tr2"
        by auto
      then show "d = destination env m t p"
      proof cases
        case 1
        then show ?thesis using tr1(3) by blast
      next
        case 2
        then show ?thesis using tr2(3) by blast
      qed
    qed
    ultimately show ?thesis by blast
  qed
qed

lemma periodsLoop_world:
  "periodsLoop env m t es w = (r, w') \<Longrightarrow>
   tsdbCreationsTotal w' = tsdbCreationsTotal w \<and>
   tsdbCreationFailures w' = tsdbCreationFailures w"
proof (induction es arbitrary: w)
  case Nil
  then show ?case by simp
next
  case (Cons pb es)
  obtain r1 w1 where bp: "buildPeriod env m t pb w = (r1, w1)" by fastforce
  note w1 = buildPeriod_world [OF bp]
  show ?case
  proof (cases r1)
    case (Some e)
    then have "w' = w1" using Cons.prems bp by simp
    then show ?thesis using w1 by simp
  next
    case None
    then have "periodsLoop env m t es w1 = (r, w')" using Cons.prems bp by simp
    from Cons.IH [OF this] show ?thesis using w1 by simp
  qed
qed

lemma periodsLoop_ok:
  "periodsLoop env m t es w = (None, w') \<Longrightarrow>
   \<exists>fs. length es = length fs \<and>
     calls w' = calls w @ concat (map (\<lambda>(pb, f). periodCalls env m t (fst pb) f) (zip es fs))"
proof (induction es arbitrary: w)
  case Nil
  then show ?case by simp
next
  case (Cons pb es)
  obtain p b where pb: "pb = (p, b)" by (cases pb)
  obtain r1 w1 where bp: "buildPeriod env m t (p, b) w = (r1, w1)" by fastforce
  have r1: "r1 = None" using Cons.prems pb bp by (cases r1) simp_all
  from buildPeriod_run [OF bp] obtain tr where tr: "calls w1 = calls w @ tr"
    "(\<exists>e. r1 = Some e \<and> tr = [BuildCall p (managerScratchDir env (dir m)) None (Some e)]) \<or>
     (\<exists>e f. r1 = Some e \<and>
        tr = [BuildCall p (managerScratchDir env (dir m)) (Some (destination env m t p)) None,
              OpenCall (destination env m t p) False f (Some e)]) \<or>
     (\<exists>f. tr = [BuildCall p (managerScratchDir env (dir m)) (Some (destination env m t p)) None,
              OpenCall (destination env m t p) False f None,
              AddIndexCall p [] f r1])"
    by blast
  from tr(2) r1 obtain f where "tr = periodCalls env m t p f"
    unfolding periodCalls_def by blast
  then have f: "calls w1 = calls w @ periodCalls env m t p f" using tr(1) by simp
  have "periodsLoop env m t es w1 = (None, w')" using Cons.prems pb bp r1 by simp
  from Cons.IH [OF this] obtain fs where fs: "length es = length fs"
    "calls w' = calls w1 @ concat (map (\<lambda>(pb, f). periodCalls env m t (fst pb) f) (zip es fs))"
    by blast
  have "length (pb # es) = length (f # fs)" using fs(1) by simp
  moreover have "calls w' = calls w @
      concat (map (\<lambda>(pb, f). periodCalls env m t (fst pb) f) (zip (pb # es) (f # fs)))"
    using f fs(2) pb by simp
  ultimately show ?case by blast
qed

lemma periodCalls_addIndex:
  "length es = length fs \<Longrightarrow>
   addIndexCalls (concat (map (\<lambda>(pb, f). periodCalls env m t (fst pb) f) (zip es fs))) =
     map (\<lambda>(pb, f). (fst pb, [], f)) (zip es fs)"
  by (induction es fs rule: list_induct2) (simp_all add: periodCalls_def)

lemma periodCalls_build:
  "length es = length fs \<Longrightarrow>
   buildCalls (concat (map (\<lambda>(pb, f). periodCalls env m t (fst pb) f) (zip es fs))) =
     map (\<lambda>(pb, f). (fst pb, Some (destination env m t (fst pb)))) (zip es fs)"
  by (induction es fs rule: list_induct2) (simp_all add: periodCalls_def)

lemma periodCalls_open:
  "length es = length fs \<Longrightarrow> (pb, f) \<in> set (zip es fs) \<Longrightarrow>
   OpenCall (destination env m t (fst pb)) False f None
     \<in> set (concat (map (\<lambda>(pb, f). periodCalls env m t (fst pb) f) (zip es fs)))"
  by (induction es fs rule: list_induct2) (auto simp: periodCalls_def)

lemma zip_keys:
  "length es = length fs \<Longrightarrow> map (\<lambda>(pb, f). fst pb) (zip es fs) = map fst es"
  by (induction es fs rule: list_induct2) simp_all

subsection \<open>\<open>BuildFromWALs\<close> as a whole\<close>

lemma BuildFromWALs_body_cases:
  assumes "BuildFromWALs_body env m t ids w = (r, w')"
  obtains
    (recovery) tmp e where
      "recoverHead env (dir m) (newTenantHeads t) ids = (tmp, Some e)"
      "r = Some (Wrap e ''building TSDB from WALs'')" "calls w' = calls w"
      "tsdbCreationsTotal w' = tsdbCreationsTotal w"
      "tsdbCreationFailures w' = tsdbCreationFailures w"
  | (visit) tmp e periods w2 where
      "recoverHead env (dir m) (newTenantHeads t) ids = (tmp, None)"
      "forAll_loop (heads_series tmp) (visit env m)
         ([], Log LevelDebug [(''msg'', S ''recovering tenant heads'')] w) = (Some e, periods, w2)"
      "r = Some e" "calls w' = calls w2"
      "tsdbCreationsTotal w' = tsdbCreationsTotal w2"
      "tsdbCreationFailures w' = tsdbCreationFailures w2"
  | (build) tmp periods w2 where
      "recoverHead env (dir m) (newTenantHeads t) ids = (tmp, None)"
      "forAll_loop (heads_series tmp) (visit env m)
         ([], Log LevelDebug [(''msg'', S ''recovering tenant heads'')] w) = (None, periods, w2)"
      "periodsLoop env m t (rangeMap (rangeOrder env) periods) w2 = (r, w')"
proof -
  let ?w1 = "Log LevelDebug [(''msg'', S ''recovering tenant heads'')] w"
  obtain tmp err where rec: "recoverHead env (dir m) (newTenantHeads t) ids = (tmp, err)"
    by fastforce
  show thesis
  proof (cases err)
    case (Some e)
    then have "r = Some (Wrap e ''building TSDB from WALs'')" "w' = ?w1"
      using assms rec by (simp_all add: BuildFromWALs_body_def)
    then show ?thesis using recovery [of tmp e] rec Some by simp
  next
    case None
    obtain r1 periods w2 where fa:
      "forAll_loop (heads_series tmp) (visit env m) ([], ?w1) = (r1, periods, w2)"
      by (cases "forAll_loop (heads_series tmp) (visit env m) ([], ?w1)")
    show ?thesis
    proof (cases r1)
      case (Some e)
      then have "r = Some e"
        "w' = Log LevelError [(''err'', S (Error e)), (''msg'', S ''building TSDB from WALs'')] w2"
        using assms rec None fa by (simp_all add: BuildFromWALs_body_def forAll_def)
      then show ?thesis using visit [of tmp e periods w2] rec None fa Some by simp
    next
      case r1: None
      then have "periodsLoop env m t (rangeMap (rangeOrder env) periods) w2 = (r, w')"
        using assms rec None fa by (simp add: BuildFromWALs_body_def forAll_def)
      then show ?thesis using build [of tmp periods w2] rec None fa r1 by simp
    qed
  qed
qed

lemma BuildFromWALs_fst:
  "fst (BuildFromWALs env m t ids w) =
     fst (BuildFromWALs_body env m t ids
       (Log LevelDebug [(''msg'', S ''building WALs''), (''n'', N (int (length ids))), (''ts'', N t)] w))"
  by (simp add: BuildFromWALs_def Let_def split: prod.splits)

lemma BuildFromWALs_calls:
  "calls (snd (BuildFromWALs env m t ids w)) =
     calls (snd (BuildFromWALs_body env m t ids
       (Log LevelDebug [(''msg'', S ''building WALs''), (''n'', N (int (length ids))), (''ts'', N t)] w)))"
  by (simp add: BuildFromWALs_def Let_def split: prod.splits)

lemma BuildFromWALs_newCalls:
  "newCalls w (snd (BuildFromWALs env m t ids w)) =
     newCalls (Log LevelDebug [(''msg'', S ''building WALs''), (''n'', N (int (length ids))), (''ts'', N t)] w)
       (snd (BuildFromWALs_body env m t ids
         (Log LevelDebug [(''msg'', S ''building WALs''), (''n'', N (int (length ids))), (''ts'', N t)] w)))"
  by (simp add: newCalls_def BuildFromWALs_calls)

lemma BuildFromWALs_metrics:
  "tsdbCreationsTotal (snd (BuildFromWALs env m t ids w)) =
     tsdbCreationsTotal (snd (BuildFromWALs_body env m t ids
       (Log LevelDebug [(''msg'', S ''building WALs''), (''n'', N (int (length ids))), (''ts'', N t)] w))) + 1"
  "tsdbCreationFailures (snd (BuildFromWALs env m t ids w)) =
     tsdbCreationFailures (snd (BuildFromWALs_body env m t ids
       (Log LevelDebug [(''msg'', S ''building WALs''), (''n'', N (int (length ids))), (''ts'', N t)] w))) +
     (if fst (BuildFromWALs env m t ids w) = None then 0 else 1)"
  by (simp_all add: BuildFromWALs_def Let_def split: prod.splits)

lemma body_newCalls:
  assumes "BuildFromWALs_body env m t ids w = (r, w')"
  shows "\<exists>tr1 tr2. calls w' = calls w @ tr1 @ tr2 \<and> (\<forall>c\<in>set tr1. builderCall c) \<and>
     (\<forall>pd ls' fp cs. AddSeriesCall pd ls' fp cs \<in> set tr1 \<longrightarrow>
        (\<exists>user ls chks.
           (user, ls, chks) \<in> set (heads_series (fst (recoverHead env (dir m) (newTenantHeads t) ids))) \<and>
           ls' = Builder_Set env ls (TenantLabel env) user \<and> fp = Hash env ls)) \<and>
     (\<forall>c\<in>set tr2. \<not> builderCall c) \<and>
     (\<forall>p sd d err. BuildCall p sd (Some d) err \<in> set tr2 \<longrightarrow> d = destination env m t p)"
  using assms
proof (cases rule: BuildFromWALs_body_cases)
  case (recovery tmp e)
  then have "calls w' = calls w @ [] @ []" by simp
  then show ?thesis by (intro exI [of _ "[]"]) simp
next
  case (visit tmp e periods w2)
  from forAll_run [OF visit(2)] obtain tr where tr:
    "calls w2 = calls w @ tr" "\<forall>c\<in>set tr. builderCall c"
    "\<forall>pd ls' fp cs. AddSeriesCall pd ls' fp cs \<in> set tr \<longrightarrow>
        (\<exists>user ls chks. (user, ls, chks) \<in> set (heads_series tmp) \<and>
           ls' = Builder_Set env ls (TenantLabel env) user \<and> fp = Hash env ls)"
    by auto
  have "calls w' = calls w @ tr @ []" using tr(1) visit(4) by simp
  moreover have "fst (recoverHead env (dir m) (newTenantHeads t) ids) = tmp"
    using visit(1) by simp
  ultimately show ?thesis using tr(2,3) by (intro exI [of _ tr] exI [of _ "[]"]) simp
next
  case (build tmp periods w2)
  from forAll_run [OF build(2)] obtain tr where tr:
    "calls w2 = calls w @ tr" "\<forall>c\<in>set tr. builderCall c"
    "\<forall>pd ls' fp cs. AddSeriesCall pd ls' fp cs \<in> set tr \<longrightarrow>
        (\<exists>user ls chks. (user, ls, chks) \<in> set (heads_series tmp) \<and>
           ls' = Builder_Set env ls (TenantLabel env) user \<and> fp = Hash env ls)"
    by auto
  from periodsLoop_run [OF build(3)] obtain tr2 where tr2:
    "calls w' = calls w2 @ tr2" "\<forall>c\<in>set tr2. \<not> builderCall c"
    "\<forall>p sd d err. BuildCall p sd (Some d) err \<in> set tr2 \<longrightarrow> d = destination env m t p"
    by blast
  have "calls w' = calls w @ tr @ tr2" using tr(1) tr2(1) by simp
  moreover have "fst (recoverHead env (dir m) (newTenantHeads t) ids) = tmp"
    using build(1) by simp
  ultimately show ?thesis using tr(2,3) tr2(2,3) by (intro exI [of _ tr] exI [of _ tr2]) simp
qed

text \<open>
  The counters: every call counts one attempt, and one failure exactly when it returns
  an error.
\<close>

lemma BuildFromWALs_body_metrics:
  assumes "BuildFromWALs_body env m t ids w = (r, w')"
  shows "tsdbCreationsTotal w' = tsdbCreationsTotal w \<and>
     tsdbCreationFailures w' = tsdbCreationFailures w"
  using assms
proof (cases rule: BuildFromWALs_body_cases)
  case (recovery tmp e)
  then show ?thesis by simp
next
  case (visit tmp e periods w2)
  then show ?thesis using forAll_world [OF visit(2)] by simp
next
  case (build tmp periods w2)
  then show ?thesis using forAll_world [OF build(2)] periodsLoop_world [OF build(3)] by simp
qed

lemma BuildFromWALs_counters:
  "tsdbCreationsTotal (snd (BuildFromWALs env m t ids w)) = tsdbCreationsTotal w + 1 \<and>
   tsdbCreationFailures (snd (BuildFromWALs env m t ids w)) =
     tsdbCreationFailures w + (if fst (BuildFromWALs env m t ids w) = None then 0 else 1)"
proof -
  let ?w0 = "Log LevelDebug
      [(''msg'', S ''building WALs''), (''n'', N (int (length ids))), (''ts'', N t)] w"
  obtain r w' where run: "BuildFromWALs_body env m t ids ?w0 = (r, w')" by fastforce
  from BuildFromWALs_body_metrics [OF run] show ?thesis
    using run by (simp add: BuildFromWALs_metrics)
qed

subsection \<open>The example run\<close>

lemma exampleRun_calls:
  "newCalls emptyWorld (snd (BuildFromWALs exampleEnv manager 1000 [2, 3] emptyWorld)) =
     [NewBuilderCall ''index_0'',
      AddSeriesCall ''index_0'' [(''__loki_tenant__'', ''A''), (''app'', ''web'')] 1 [exampleChunk],
      NewBuilderCall ''index_1'',
      AddSeriesCall ''index_1'' [(''__loki_tenant__'', ''A''), (''app'', ''web'')] 1 [exampleChunk]] @
     periodCalls exampleEnv manager 1000 ''index_0''
       (TSDBFile (destination exampleEnv manager 1000 ''index_0'')) @
     periodCalls exampleEnv manager 1000 ''index_1''
       (TSDBFile (destination exampleEnv manager 1000 ''index_1''))"
  by code_simp

lemma exampleRun_ok: "fst (BuildFromWALs exampleEnv manager 1000 [2, 3] emptyWorld) = None"
  by code_simp

lemma sameOrder_once: "eachKeyOnce sameOrder"
  by (simp add: eachKeyOnce_def sameOrder_def)

lemma exampleChunk_keys:
  "indexBuckets (From exampleChunk) (Through exampleChunk) everyTable = ([''index_0'', ''index_1''], None)"
  by code_simp


lemma BuildFromWALs_body_recovery_error:
  "snd (recoverHead env (dir m) (newTenantHeads t) ids) = Some e \<Longrightarrow>
   BuildFromWALs_body env m t ids w =
     (Some (Wrap e ''building TSDB from WALs''),
      Log LevelDebug [(''msg'', S ''recovering tenant heads'')] w)"
  by (cases "recoverHead env (dir m) (newTenantHeads t) ids")
     (simp add: BuildFromWALs_body_def)

lemma BuildFromWALs_body_nothing:
  "recoverHead env (dir m) (newTenantHeads t) ids = (tmp, None) \<Longrightarrow> heads_series tmp = [] \<Longrightarrow>
   BuildFromWALs_body env m t ids w =
     (None, Log LevelDebug [(''msg'', S ''recovering tenant heads'')] w)"
  by (simp add: BuildFromWALs_body_def forAll_def)

subsection \<open>Claims about \<open>BuildFromWALs\<close>\<close>



text \<open>
  Claim C3. Take a recovered series and let \<open>indexBuckets\<close> fail on no chunk of the
  series visited before it nor on one of its own (a failure there ends the call before
  the series reaches a builder). Then every chunk of the series is added to the builder
  of each period it overlaps: for each key that \<open>indexBuckets\<close> returns for the chunk
  there is an \<open>AddSeries\<close> call on the builder of that key, with the tenant-tagged labels
  and the original fingerprint of the series, whose chunk list holds the chunk. This holds
  for every order in which \<open>range\<close> visits the keys. The chunk of the example starts on
  day 0 and ends on day 1 and reaches the builders of both.
\<close>

theorem BuildFromWALs_chunk_in_every_period:
  assumes "eachKeyOnce (rangeOrder env)"
    and "recoverHead env (dir m) (newTenantHeads t) ids = (tmp, None)"
    and "heads_series tmp = before @ (user, ls, chks) # after"
    and "\<forall>(user', ls', chks')\<in>set (before @ [(user, ls, chks)]). \<forall>chk'\<in>set chks'.
           snd (indexBuckets (From chk') (Through chk') (tableRanges m)) = None"
    and "chk \<in> set chks"
    and "bucket \<in> set (fst (indexBuckets (From chk) (Through chk) (tableRanges m)))"
  shows "\<exists>matchingChks.
           AddSeriesCall bucket (Builder_Set env ls (TenantLabel env) user) (Hash env ls) matchingChks
             \<in> set (newCalls w (snd (BuildFromWALs env m t ids w))) \<and>
           chk \<in> set matchingChks"
proof -
  let ?w0 = "Log LevelDebug
      [(''msg'', S ''building WALs''), (''n'', N (int (length ids))), (''ts'', N t)] w"
  let ?w1 = "Log LevelDebug [(''msg'', S ''recovering tenant heads'')] ?w0"
  let ?upto = "before @ [(user, ls, chks)]"
  obtain r w' where run: "BuildFromWALs_body env m t ids ?w0 = (r, w')" by fastforce
  have "newCalls w (snd (BuildFromWALs env m t ids w)) = newCalls ?w0 w'"
    using run by (simp add: BuildFromWALs_newCalls)
  moreover have "newCalls ?w0 w' = newCalls ?w1 w'" by (simp add: newCalls_def)
  ultimately have new: "newCalls w (snd (BuildFromWALs env m t ids w)) = newCalls ?w1 w'"
    by simp
  obtain r1 p1 w1 where first: "forAll_loop ?upto (visit env m) ([], ?w1) = (r1, p1, w1)"
    by (cases "forAll_loop ?upto (visit env m) ([], ?w1)")
  have "fst (forAll_loop ?upto (visit env m) ([], ?w1)) = None"
    using assms(4) by (simp only: forAll_result)
  then have r1: "r1 = None" using first by simp
  have k: "bucket \<in> set (chunkKeys (tableRanges m) chk)"
    using assms(6) by (simp add: chunkKeys_def)
  have "(user, ls, chks) \<in> set ?upto" by simp
  from forAll_complete [OF first [unfolded r1] assms(1) this assms(5) k]
  obtain cs where cs:
    "AddSeriesCall bucket (Builder_Set env ls (TenantLabel env) user) (Hash env ls) cs
       \<in> set (newCalls ?w1 w1)" "chk \<in> set cs"
    by blast
  from forAll_run [OF first] obtain tr1 where tr1: "calls w1 = calls ?w1 @ tr1" by blast
  have whole: "forAll_loop (heads_series tmp) (visit env m) ([], ?w1) =
      forAll_loop after (visit env m) (p1, w1)"
    using first r1 assms(3) forAll_loop_append [of ?upto after "visit env m" "([], ?w1)"]
    by simp
  have later: "\<exists>tr. calls w' = calls w1 @ tr"
    using run
  proof (cases rule: BuildFromWALs_body_cases)
    case (recovery tmp' e)
    then show ?thesis using assms(2) by simp
  next
    case (visit tmp' e periods w2)
    then have "forAll_loop after (visit env m) (p1, w1) = (Some e, periods, w2)"
      using assms(2) whole by simp
    from forAll_run [OF this] visit(4) show ?thesis by auto
  next
    case (build tmp' periods w2)
    then have "forAll_loop after (visit env m) (p1, w1) = (None, periods, w2)"
      using assms(2) whole by simp
    from forAll_run [OF this] obtain tr2 where tr2: "calls w2 = calls w1 @ tr2" by blast
    from periodsLoop_run [OF build(3)] obtain tr3 where "calls w' = calls w2 @ tr3" by blast
    then have "calls w' = calls w1 @ (tr2 @ tr3)" using tr2 by simp
    then show ?thesis by blast
  qed
  then obtain tr where tr: "calls w' = calls w1 @ tr" by blast
  have "newCalls ?w1 w' = newCalls ?w1 w1 @ newCalls w1 w'"
    using newCalls_trans [OF tr1 tr] .
  then show ?thesis using cs new by auto
qed

theorem BuildFromWALs_chunk_in_every_period_witness:
  "\<exists>matchingChks.
     AddSeriesCall ''index_1'' (Builder_Set exampleEnv exampleLabels (TenantLabel exampleEnv) ''A'')
       (Hash exampleEnv exampleLabels) matchingChks
       \<in> set (newCalls emptyWorld (snd (BuildFromWALs exampleEnv manager 1000 [2, 3] emptyWorld))) \<and>
     exampleChunk \<in> set matchingChks"
proof -
  let ?tmp = "\<lparr>heads_start = 1000, heads_series = [(''A'', exampleLabels, [exampleChunk])]\<rparr>"
  have o: "eachKeyOnce (rangeOrder exampleEnv)" by (simp add: exampleEnv_def sameOrder_once)
  have r: "recoverHead exampleEnv (dir manager) (newTenantHeads 1000) [2, 3] = (?tmp, None)"
    by (simp add: exampleEnv_def exampleRecover_def newTenantHeads_def)
  have tr: "tableRanges manager = everyTable" by (simp add: manager_def)
  have s: "heads_series ?tmp = [] @ (''A'', exampleLabels, [exampleChunk]) # []" by simp
  have c: "\<forall>(user', ls', chks')\<in>set ([] @ [(''A'', exampleLabels, [exampleChunk])]).
      \<forall>chk'\<in>set chks'. snd (indexBuckets (From chk') (Through chk') (tableRanges manager)) = None"
    by (simp add: tr exampleChunk_keys)
  have k: "''index_1'' \<in> set (fst (indexBuckets (From exampleChunk) (Through exampleChunk)
      (tableRanges manager)))"
    by (simp add: tr exampleChunk_keys)
  show ?thesis
    by (rule BuildFromWALs_chunk_in_every_period [OF o r s c _ k]) simp
qed

text \<open>
  Claim C4. If \<open>BuildFromWALs\<close> returns \<open>nil\<close>, then \<open>AddIndex\<close> was called exactly
  once for each distinct bucket key touched by the recovered chunks and for no other key,
  each time with the empty tenant and with the file opened for the destination of that
  key, and \<open>Build\<close> was called once for each of those keys, in the same order.
\<close>

theorem BuildFromWALs_one_file_per_period:
  assumes "eachKeyOnce (rangeOrder env)"
    and "fst (BuildFromWALs env m t ids w) = None"
  shows "distinct (map fst (addIndexCalls (newCalls w (snd (BuildFromWALs env m t ids w))))) \<and>
         set (map fst (addIndexCalls (newCalls w (snd (BuildFromWALs env m t ids w))))) =
           set (touched (tableRanges m) (fst (recoverHead env (dir m) (newTenantHeads t) ids))) \<and>
         (\<forall>(bucket, tenant, f)\<in>set (addIndexCalls (newCalls w (snd (BuildFromWALs env m t ids w)))).
            tenant = [] \<and>
            OpenCall (destination env m t bucket) False f None
              \<in> set (newCalls w (snd (BuildFromWALs env m t ids w)))) \<and>
         buildCalls (newCalls w (snd (BuildFromWALs env m t ids w))) =
           map (\<lambda>(bucket, tenant, f). (bucket, Some (destination env m t bucket)))
             (addIndexCalls (newCalls w (snd (BuildFromWALs env m t ids w))))"
proof -
  let ?w0 = "Log LevelDebug
      [(''msg'', S ''building WALs''), (''n'', N (int (length ids))), (''ts'', N t)] w"
  let ?w1 = "Log LevelDebug [(''msg'', S ''recovering tenant heads'')] ?w0"
  let ?new = "newCalls w (snd (BuildFromWALs env m t ids w))"
  obtain r w' where run: "BuildFromWALs_body env m t ids ?w0 = (r, w')" by fastforce
  have r: "r = None" using assms(2) run by (simp add: BuildFromWALs_fst)
  from run show ?thesis
  proof (cases rule: BuildFromWALs_body_cases)
    case (recovery tmp e)
    then show ?thesis using r by simp
  next
    case (visit tmp e periods w2)
    then show ?thesis using r by simp
  next
    case (build tmp periods w2)
    let ?es = "rangeMap (rangeOrder env) periods"
    from forAll_run [OF build(2)] obtain tr1 where tr1:
      "calls w2 = calls ?w1 @ tr1" "\<forall>c\<in>set tr1. builderCall c"
      by blast
    have keys: "fst ` set periods = set (touched (tableRanges m) tmp)" "distinct (map fst periods)"
      using forAll_keys [OF build(2) assms(1)] by (simp_all add: touched_def)
    have es: "distinct (map fst ?es)" "set (map fst ?es) = set (touched (tableRanges m) tmp)"
      using rangeMap_once [OF assms(1) keys(2)] keys(1) by simp_all
    from periodsLoop_ok [OF build(3) [unfolded r]] obtain fs where fs:
      "length ?es = length fs"
      "calls w' = calls w2 @ concat (map (\<lambda>(pb, f). periodCalls env m t (fst pb) f) (zip ?es fs))"
      by blast
    let ?tr2 = "concat (map (\<lambda>(pb, f). periodCalls env m t (fst pb) f) (zip ?es fs))"
    have "calls w' = calls ?w0 @ (tr1 @ ?tr2)" using tr1(1) fs(2) by simp
    then have new: "?new = tr1 @ ?tr2"
      using newCalls_eq run by (simp add: BuildFromWALs_newCalls)
    have ai: "addIndexCalls ?new = map (\<lambda>(pb, f). (fst pb, [], f)) (zip ?es fs)"
      using builderCalls_no_addIndex [OF tr1(2)] periodCalls_addIndex [OF fs(1)]
      by (simp add: new addIndexCalls_append)
    have bc: "buildCalls ?new =
        map (\<lambda>(pb, f). (fst pb, Some (destination env m t (fst pb)))) (zip ?es fs)"
      using builderCalls_no_build [OF tr1(2)] periodCalls_build [OF fs(1)]
      by (simp add: new buildCalls_append)
    have k: "map fst (addIndexCalls ?new) = map fst ?es"
      using zip_keys [OF fs(1)] by (simp add: ai split_def comp_def)
    have tmp: "fst (recoverHead env (dir m) (newTenantHeads t) ids) = tmp"
      using build(1) by simp
    have c1: "distinct (map fst (addIndexCalls ?new))" using k es(1) by simp
    have c2: "set (map fst (addIndexCalls ?new)) =
        set (touched (tableRanges m) (fst (recoverHead env (dir m) (newTenantHeads t) ids)))"
      using k es(2) tmp by simp
    have c3: "\<forall>(bucket, tenant, f)\<in>set (addIndexCalls ?new).
        tenant = [] \<and> OpenCall (destination env m t bucket) False f None \<in> set ?new"
    proof (clarify, intro conjI)
      fix bucket tenant f
      assume "(bucket, tenant, f) \<in> set (addIndexCalls ?new)"
      then obtain pb where pb: "(pb, f) \<in> set (zip ?es fs)" "bucket = fst pb" "tenant = []"
        by (auto simp: ai)
      show "tenant = []" using pb(3) .
      show "OpenCall (destination env m t bucket) False f None \<in> set ?new"
        using periodCalls_open [OF fs(1) pb(1)] pb(2) by (simp add: new)
    qed
    have c4: "buildCalls ?new =
        map (\<lambda>(bucket, tenant, f). (bucket, Some (destination env m t bucket))) (addIndexCalls ?new)"
      by (simp add: ai bc split_def comp_def)
    show ?thesis using c1 c2 c3 c4 by blast
  qed
qed

theorem BuildFromWALs_one_file_per_period_witness:
  "map fst (addIndexCalls (newCalls emptyWorld
     (snd (BuildFromWALs exampleEnv manager 1000 [2, 3] emptyWorld)))) = [''index_0'', ''index_1''] \<and>
   set (touched (tableRanges manager)
     (fst (recoverHead exampleEnv (dir manager) (newTenantHeads 1000) [2, 3]))) =
     {''index_0'', ''index_1''} \<and>
   buildCalls (newCalls emptyWorld (snd (BuildFromWALs exampleEnv manager 1000 [2, 3] emptyWorld))) =
     [(''index_0'', Some (destination exampleEnv manager 1000 ''index_0'')),
      (''index_1'', Some (destination exampleEnv manager 1000 ''index_1''))]"
proof -
  have o: "eachKeyOnce (rangeOrder exampleEnv)" by (simp add: exampleEnv_def sameOrder_once)
  have a: "map fst (addIndexCalls (newCalls emptyWorld
      (snd (BuildFromWALs exampleEnv manager 1000 [2, 3] emptyWorld)))) = [''index_0'', ''index_1'']"
    by (simp add: exampleRun_calls periodCalls_def)
  have b: "addIndexCalls (newCalls emptyWorld
      (snd (BuildFromWALs exampleEnv manager 1000 [2, 3] emptyWorld))) =
      [(''index_0'', [], TSDBFile (destination exampleEnv manager 1000 ''index_0'')),
       (''index_1'', [], TSDBFile (destination exampleEnv manager 1000 ''index_1''))]"
    by (simp add: exampleRun_calls periodCalls_def)
  show ?thesis
    using BuildFromWALs_one_file_per_period [OF o exampleRun_ok] a b
    by auto
qed

text \<open>
  Claim C5. If \<open>recoverHead\<close> returns an error, \<open>BuildFromWALs\<close> returns that error
  wrapped with \<open>building TSDB from WALs\<close>, both counters are incremented once, and no
  call is made on a builder or on the shipper.
\<close>

theorem BuildFromWALs_recovery_error:
  assumes "snd (recoverHead env (dir m) (newTenantHeads t) ids) = Some e"
  shows "fst (BuildFromWALs env m t ids w) = Some (Wrap e ''building TSDB from WALs'') \<and>
         tsdbCreationsTotal (snd (BuildFromWALs env m t ids w)) = tsdbCreationsTotal w + 1 \<and>
         tsdbCreationFailures (snd (BuildFromWALs env m t ids w)) = tsdbCreationFailures w + 1 \<and>
         calls (snd (BuildFromWALs env m t ids w)) = calls w"
  by (simp add: BuildFromWALs_def BuildFromWALs_body_recovery_error [OF assms])

theorem BuildFromWALs_recovery_error_witness:
  "fst (BuildFromWALs (exampleEnv\<lparr>recoverHead := failingRecover\<rparr>) manager 1000 [2, 3] emptyWorld) =
     Some (Wrap (ErrorString ''corrupt segment'') ''building TSDB from WALs'') \<and>
   tsdbCreationsTotal (snd (BuildFromWALs (exampleEnv\<lparr>recoverHead := failingRecover\<rparr>) manager 1000 [2, 3] emptyWorld)) = 1 \<and>
   tsdbCreationFailures (snd (BuildFromWALs (exampleEnv\<lparr>recoverHead := failingRecover\<rparr>) manager 1000 [2, 3] emptyWorld)) = 1 \<and>
   calls (snd (BuildFromWALs (exampleEnv\<lparr>recoverHead := failingRecover\<rparr>) manager 1000 [2, 3] emptyWorld)) = []"
proof -
  have h: "snd (recoverHead (exampleEnv\<lparr>recoverHead := failingRecover\<rparr>) (dir manager)
      (newTenantHeads 1000) [2, 3]) = Some (ErrorString ''corrupt segment'')"
    by (simp add: failingRecover_def)
  show ?thesis
    using BuildFromWALs_recovery_error [OF h, of emptyWorld]
    by (simp add: emptyWorld_def)
qed

text \<open>
  Claim C9, amended. Every index file built by \<open>BuildFromWALs\<close> is assigned the
  destination identifier made before the build from the node name, the build timestamp
  and the directory of the period; the function given to \<open>Build\<close> returns that
  identifier whatever interval and checksum it is given.
\<close>

theorem BuildFromWALs_destination:
  assumes "BuildCall p scratchDir (Some dst) err \<in> set (newCalls w (snd (BuildFromWALs env m t ids w)))"
  shows "dst = newPrefixedIdentifier \<lparr>id_nodeName = nodeName m, id_ts = t\<rparr>
                 (Join env (managerMultitenantDir env (dir m)) p) [] \<and>
         createFn dst from through checksum = dst"
proof -
  let ?w0 = "Log LevelDebug
      [(''msg'', S ''building WALs''), (''n'', N (int (length ids))), (''ts'', N t)] w"
  obtain r w' where run: "BuildFromWALs_body env m t ids ?w0 = (r, w')" by fastforce
  from body_newCalls [OF run] obtain tr1 tr2 where tr:
    "calls w' = calls ?w0 @ tr1 @ tr2"
    "\<forall>c\<in>set tr1. builderCall c"
    "\<forall>p sd d err. BuildCall p sd (Some d) err \<in> set tr2 \<longrightarrow> d = destination env m t p"
    by blast
  have "newCalls w (snd (BuildFromWALs env m t ids w)) = tr1 @ tr2"
    using newCalls_eq [OF tr(1)] run by (simp add: BuildFromWALs_newCalls)
  then have "BuildCall p scratchDir (Some dst) err \<in> set tr1 \<or>
      BuildCall p scratchDir (Some dst) err \<in> set tr2"
    using assms by simp
  moreover have "BuildCall p scratchDir (Some dst) err \<notin> set tr1"
  proof
    assume "BuildCall p scratchDir (Some dst) err \<in> set tr1"
    then have "builderCall (BuildCall p scratchDir (Some dst) err)" using tr(2) by blast
    then show False by simp
  qed
  ultimately have "dst = destination env m t p" using tr(3) by blast
  then show ?thesis by (simp add: destination_def createFn_def)
qed

theorem BuildFromWALs_destination_witness:
  "destination exampleEnv manager 1000 ''index_0'' =
     newPrefixedIdentifier \<lparr>id_nodeName = ''ingester-0'', id_ts = 1000\<rparr>
       ''/data/multitenant/index_0'' [] \<and>
   createFn (destination exampleEnv manager 1000 ''index_0'') 36000000 129600000 7 =
     destination exampleEnv manager 1000 ''index_0''"
proof -
  have h: "BuildCall ''index_0'' (managerScratchDir exampleEnv (dir manager))
      (Some (destination exampleEnv manager 1000 ''index_0'')) None
      \<in> set (newCalls emptyWorld (snd (BuildFromWALs exampleEnv manager 1000 [2, 3] emptyWorld)))"
    by (simp add: exampleRun_calls periodCalls_def)
  have n: "nodeName manager = ''ingester-0''" by (simp add: manager_def)
  have d: "Join exampleEnv (managerMultitenantDir exampleEnv (dir manager)) ''index_0'' =
      ''/data/multitenant/index_0''"
    by (simp add: manager_def exampleEnv_def exampleJoin_def)
  show ?thesis
    using BuildFromWALs_destination [OF h, of 36000000 129600000 7]
    unfolding n d .
qed

text \<open>
  The identifier does not incorporate the checksum: two builds over the same series whose
  contents have the checksums 7 and 8 are assigned the same identifiers.
\<close>

theorem BuildFromWALs_checksum_counterexample:
  "exampleWrite 7 emptyWorld [] ''/data/scratch'' = Inr (36000000, 129600000, 7) \<and>
   exampleWrite 8 emptyWorld [] ''/data/scratch'' = Inr (36000000, 129600000, 8) \<and>
   buildCalls (newCalls emptyWorld
     (snd (BuildFromWALs (exampleEnv\<lparr>writeIndex := exampleWrite 7\<rparr>) manager 1000 [2, 3] emptyWorld))) =
     [(''index_0'', Some (newPrefixedIdentifier \<lparr>id_nodeName = ''ingester-0'', id_ts = 1000\<rparr>
         ''/data/multitenant/index_0'' [])),
      (''index_1'', Some (newPrefixedIdentifier \<lparr>id_nodeName = ''ingester-0'', id_ts = 1000\<rparr>
         ''/data/multitenant/index_1'' []))] \<and>
   buildCalls (newCalls emptyWorld
     (snd (BuildFromWALs (exampleEnv\<lparr>writeIndex := exampleWrite 8\<rparr>) manager 1000 [2, 3] emptyWorld))) =
     [(''index_0'', Some (newPrefixedIdentifier \<lparr>id_nodeName = ''ingester-0'', id_ts = 1000\<rparr>
         ''/data/multitenant/index_0'' [])),
      (''index_1'', Some (newPrefixedIdentifier \<lparr>id_nodeName = ''ingester-0'', id_ts = 1000\<rparr>
         ''/data/multitenant/index_1'' []))]"
  by code_simp

text \<open>
  Claim C10. If recovery succeeds with no series, \<open>BuildFromWALs\<close> returns \<open>nil\<close>,
  makes no call on a builder, on \<open>Build\<close> or on the shipper, and increments the
  attempt counter only.
\<close>

theorem BuildFromWALs_nothing_recovered:
  assumes "recoverHead env (dir m) (newTenantHeads t) ids = (tmp, None)"
    and "heads_series tmp = []"
  shows "fst (BuildFromWALs env m t ids w) = None \<and>
         calls (snd (BuildFromWALs env m t ids w)) = calls w \<and>
         tsdbCreationsTotal (snd (BuildFromWALs env m t ids w)) = tsdbCreationsTotal w + 1 \<and>
         tsdbCreationFailures (snd (BuildFromWALs env m t ids w)) = tsdbCreationFailures w"
  by (simp add: BuildFromWALs_def BuildFromWALs_body_nothing [OF assms])

theorem BuildFromWALs_nothing_recovered_witness:
  "fst (BuildFromWALs (exampleEnv\<lparr>recoverHead := emptyRecover\<rparr>) manager 1000 [2, 3] emptyWorld) = None \<and>
   calls (snd (BuildFromWALs (exampleEnv\<lparr>recoverHead := emptyRecover\<rparr>) manager 1000 [2, 3] emptyWorld)) = [] \<and>
   tsdbCreationsTotal (snd (BuildFromWALs (exampleEnv\<lparr>recoverHead := emptyRecover\<rparr>) manager 1000 [2, 3] emptyWorld)) = 1 \<and>
   tsdbCreationFailures (snd (BuildFromWALs (exampleEnv\<lparr>recoverHead := emptyRecover\<rparr>) manager 1000 [2, 3] emptyWorld)) = 0"
proof -
  have h: "recoverHead (exampleEnv\<lparr>recoverHead := emptyRecover\<rparr>) (dir manager)
      (newTenantHeads 1000) [2, 3] = (newTenantHeads 1000, None)"
    by (simp add: emptyRecover_def)
  have e: "heads_series (newTenantHeads 1000) = []" by (simp add: newTenantHeads_def)
  show ?thesis
    using BuildFromWALs_nothing_recovered [OF h e, of emptyWorld]
    by (simp add: emptyWorld_def)
qed

subsection \<open>The calls of \<open>Start\<close>\<close>

lemma failures_append: "failures (xs @ ys) = failures xs + failures ys"
  by (induction xs rule: failures.induct) simp_all

lemma split_at:
  "a @ b = pre @ x # post \<longleftrightarrow>
     (\<exists>us. a = pre @ x # us \<and> post = us @ b) \<or> (\<exists>us. pre = a @ us \<and> b = us @ x # post)"
proof -
  have "a @ b = pre @ x # post \<longleftrightarrow>
      (\<exists>us. (a = pre @ us \<and> us @ b = x # post) \<or> (a @ us = pre \<and> b = us @ x # post))"
    by (rule append_eq_append_conv2)
  also have "\<dots> \<longleftrightarrow>
      (\<exists>us. a = pre @ x # us \<and> post = us @ b) \<or> (\<exists>us. pre = a @ us \<and> b = us @ x # post)"
  proof
    assume "\<exists>us. (a = pre @ us \<and> us @ b = x # post) \<or> (a @ us = pre \<and> b = us @ x # post)"
    then obtain us where us: "(a = pre @ us \<and> us @ b = x # post) \<or> (a @ us = pre \<and> b = us @ x # post)"
      by blast
    show "(\<exists>us. a = pre @ x # us \<and> post = us @ b) \<or> (\<exists>us. pre = a @ us \<and> b = us @ x # post)"
    proof (cases us)
      case Nil
      then show ?thesis using us by auto
    next
      case (Cons u us')
      then show ?thesis using us by auto
    qed
  next
    assume "(\<exists>us. a = pre @ x # us \<and> post = us @ b) \<or> (\<exists>us. pre = a @ us \<and> b = us @ x # post)"
    then show "\<exists>us. (a = pre @ us \<and> us @ b = x # post) \<or> (a @ us = pre \<and> b = us @ x # post)"
      by (metis append_Cons)
  qed
  finally show ?thesis .
qed

lemma registersAfterOpen_Nil [simp]: "registersAfterOpen []"
  by (simp add: registersAfterOpen_def)

lemma registersAfterOpen_append:
  assumes "registersAfterOpen a" "registersAfterOpen b"
  shows "registersAfterOpen (a @ b)"
  unfolding registersAfterOpen_def
proof (intro allI impI)
  fix pre p readonly f e post
  assume "a @ b = pre @ OpenCall p readonly f (Some e) # post"
  then consider us where "a = pre @ OpenCall p readonly f (Some e) # us" "post = us @ b"
    | us where "pre = a @ us" "b = us @ OpenCall p readonly f (Some e) # post"
    unfolding split_at by blast
  then show "\<exists>bucket r post'. post = AddIndexCall bucket [] f r # post'"
  proof cases
    case 1
    then obtain bucket r post' where "us = AddIndexCall bucket [] f r # post'"
      using assms(1) unfolding registersAfterOpen_def by blast
    then show ?thesis using 1(2) by simp
  next
    case 2
    then show ?thesis using assms(2) unfolding registersAfterOpen_def by blast
  qed
qed

lemma stopsAt_Nil [simp]: "stopsAt [] R"
  by (simp add: stopsAt_def)

lemma stopsAt_append:
  assumes "stopsAt a (\<lambda>e. False)" "stopsAt b R"
  shows "stopsAt (a @ b) R"
  unfolding stopsAt_def
proof (intro allI impI)
  fix pre bucket tenant f e post
  assume "a @ b = pre @ AddIndexCall bucket tenant f (Some e) # post"
  then consider us where "a = pre @ AddIndexCall bucket tenant f (Some e) # us" "post = us @ b"
    | us where "pre = a @ us" "b = us @ AddIndexCall bucket tenant f (Some e) # post"
    unfolding split_at by blast
  then show "post = [] \<and> R e"
  proof cases
    case 1
    then show ?thesis using assms(1) unfolding stopsAt_def by blast
  next
    case 2
    then show ?thesis using assms(2) unfolding stopsAt_def by blast
  qed
qed

lemma stopsAt_mono: "stopsAt tr R \<Longrightarrow> (\<And>e. R e \<Longrightarrow> Q e) \<Longrightarrow> stopsAt tr Q"
  unfolding stopsAt_def by blast

lemma pair_split:
  "[x, y] = pre @ z # post \<longleftrightarrow> (pre = [] \<and> z = x \<and> post = [y]) \<or> (pre = [x] \<and> z = y \<and> post = [])"
  by (cases pre; cases "tl pre") auto

lemma loadIndex_run:
  assumes "loadIndex env md bucket db (c, w) = (r, c', w')"
  shows "\<exists>tr. calls w' = calls w @ tr \<and> registersAfterOpen tr \<and> stopsAt tr (\<lambda>e. r = Some e) \<and>
     loadingErrors c' = loadingErrors c + int (failures tr)"
proof (cases "parseMultitenantTSDBPath env (Name db)")
  case None
  then have "r = None" "c' = c" "w' = w" using assms by (simp_all add: loadIndex_def)
  then show ?thesis by (intro exI [of _ "[]"]) simp
next
  case (Some ident)
  let ?p = "newPrefixedIdentifier ident (Join env md bucket) []"
  obtain loaded oe where O: "NewShippableTSDBFile env w ?p False = (loaded, oe)" by fastforce
  let ?tr = "[OpenCall ?p False loaded oe, AddIndexCall bucket [] loaded r]"
  let ?c1 = "c\<lparr>indices := indices c + 1\<rparr>"
  let ?w1 = "called (OpenCall ?p False loaded oe) w"
  let ?c2 = "case oe of None \<Rightarrow> ?c1 | Some e \<Rightarrow> ?c1\<lparr>loadingErrors := loadingErrors ?c1 + 1\<rparr>"
  let ?w2 = "case oe of None \<Rightarrow> ?w1
    | Some e \<Rightarrow> Log LevelWarn
        [(''msg'', S []), (''tsdbPath'', PathOf ?p), (''err'', S (Error e))] ?w1"
  let ?ar = "AddIndex env ?w2 bucket [] loaded"
  let ?w3 = "called (AddIndexCall bucket [] loaded ?ar) ?w2"
  have eq: "loadIndex env md bucket db (c, w) =
      (case ?ar of
         Some e \<Rightarrow> (Some e, ?c2\<lparr>loadingErrors := loadingErrors ?c2 + 1\<rparr>, ?w3)
       | None \<Rightarrow> (None, ?c2, ?w3))"
    using Some O by (cases oe) (simp_all add: loadIndex_def Let_def split: option.splits)
  have c2: "loadingErrors ?c2 = loadingErrors c + (case oe of None \<Rightarrow> 0 | Some e \<Rightarrow> 1)"
    by (cases oe) simp_all
  have w2: "calls ?w2 = calls w @ [OpenCall ?p False loaded oe]"
    by (cases oe) simp_all
  have res: "r = ?ar \<and> w' = ?w3 \<and>
      loadingErrors c' = loadingErrors ?c2 + (case ?ar of None \<Rightarrow> 0 | Some e \<Rightarrow> 1)"
  proof (cases ?ar)
    case None
    then have "loadIndex env md bucket db (c, w) = (None, ?c2, ?w3)" by (simp only: eq option.case)
    then show ?thesis using assms None by simp
  next
    case (Some e)
    then have "loadIndex env md bucket db (c, w) =
        (Some e, ?c2\<lparr>loadingErrors := loadingErrors ?c2 + 1\<rparr>, ?w3)"
      by (simp only: eq option.case)
    then show ?thesis using assms Some by simp
  qed
  have f: "int (failures ?tr) =
      (case oe of None \<Rightarrow> 0 | Some e \<Rightarrow> 1) + (case r of None \<Rightarrow> 0 | Some e \<Rightarrow> 1)"
    by (cases oe; cases r) simp_all
  have run: "calls w' = calls w @ ?tr \<and>
      loadingErrors c' = loadingErrors c + int (failures ?tr)"
    using res c2 w2 f by simp
  have "registersAfterOpen ?tr"
    unfolding registersAfterOpen_def pair_split by auto
  moreover have "stopsAt ?tr (\<lambda>e. r = Some e)"
    unfolding stopsAt_def pair_split by auto
  ultimately show ?thesis using run by blast
qed

lemma tsdbLoop_run:
  "tsdbLoop env md bucket tsdbs (c, w) = (r, c', w') \<Longrightarrow>
   \<exists>tr. calls w' = calls w @ tr \<and> registersAfterOpen tr \<and> stopsAt tr (\<lambda>e. r = Some e) \<and>
     loadingErrors c' = loadingErrors c + int (failures tr)"
proof (induction tsdbs arbitrary: c w)
  case Nil
  then have "r = None" "c' = c" "w' = w" by simp_all
  then show ?case by (intro exI [of _ "[]"]) simp
next
  case (Cons db tsdbs)
  obtain r1 c1 w1 where step: "loadIndex env md bucket db (c, w) = (r1, c1, w1)"
    by (cases "loadIndex env md bucket db (c, w)")
  from loadIndex_run [OF step] obtain tr1 where tr1: "calls w1 = calls w @ tr1"
    "registersAfterOpen tr1" "stopsAt tr1 (\<lambda>e. r1 = Some e)"
    "loadingErrors c1 = loadingErrors c + int (failures tr1)"
    by blast
  show ?case
  proof (cases r1)
    case (Some e)
    then have "r = r1" "c' = c1" "w' = w1" using Cons.prems step by simp_all
    then show ?thesis using tr1 by blast
  next
    case None
    then have "tsdbLoop env md bucket tsdbs (c1, w1) = (r, c', w')"
      using Cons.prems step by simp
    from Cons.IH [OF this] obtain tr2 where tr2: "calls w' = calls w1 @ tr2"
      "registersAfterOpen tr2" "stopsAt tr2 (\<lambda>e. r = Some e)"
      "loadingErrors c' = loadingErrors c1 + int (failures tr2)"
      by blast
    have quiet: "stopsAt tr1 (\<lambda>e. False)" using tr1(3) None by (simp add: stopsAt_def)
    have "calls w' = calls w @ (tr1 @ tr2)" using tr1(1) tr2(1) by simp
    moreover have "registersAfterOpen (tr1 @ tr2)"
      using tr1(2) tr2(2) by (rule registersAfterOpen_append)
    moreover have "stopsAt (tr1 @ tr2) (\<lambda>e. r = Some e)"
      using quiet tr2(3) by (rule stopsAt_append)
    moreover have "loadingErrors c' = loadingErrors c + int (failures (tr1 @ tr2))"
      using tr1(4) tr2(4) by (simp add: failures_append)
    ultimately show ?thesis by blast
  qed
qed

lemma loadBucket_run:
  assumes "loadBucket env md err f (c, w) = (ro, c', w')"
  shows "\<exists>tr. calls w' = calls w @ tr \<and> registersAfterOpen tr \<and>
     stopsAt tr (\<lambda>e. ro = Some (Returned (Some e))) \<and>
     loadingErrors c' = loadingErrors c + int (failures tr)"
proof -
  have quiet: ?thesis if "calls w' = calls w" "loadingErrors c' = loadingErrors c"
    using that by (intro exI [of _ "[]"]) simp
  show ?thesis
  proof (cases "IsDir f")
    case False
    then have "c' = c" "w' = w" using assms by (simp_all add: loadBucket_def)
    then show ?thesis by (intro quiet) simp_all
  next
    case True
    show ?thesis
    proof (cases "MatchString (Name f)")
      case False
      then have "calls w' = calls w \<and> loadingErrors c' = loadingErrors c"
        using assms True by (cases err) (auto simp: loadBucket_def)
      then show ?thesis by (intro quiet) simp_all
    next
      case match: True
      let ?c1 = "c\<lparr>buckets := buckets c + 1\<rparr>"
      show ?thesis
      proof (cases "ReadDir env (Join env md (Name f))")
        case (Inl e)
        then have "calls w' = calls w \<and> loadingErrors c' = loadingErrors c"
          using assms True match by (auto simp: loadBucket_def)
        then show ?thesis by (intro quiet) simp_all
      next
        case (Inr tsdbs)
        obtain r c2 w2 where loop: "tsdbLoop env md (Name f) tsdbs (?c1, w) = (r, c2, w2)"
          by (cases "tsdbLoop env md (Name f) tsdbs (?c1, w)")
        have res: "c' = c2 \<and> w' = w2 \<and>
            ro = (case r of None \<Rightarrow> None | Some e \<Rightarrow> Some (Returned (Some e)))"
          using assms True match Inr loop by (cases r) (auto simp: loadBucket_def)
        from tsdbLoop_run [OF loop] obtain tr where tr: "calls w2 = calls w @ tr"
          "registersAfterOpen tr" "stopsAt tr (\<lambda>e. r = Some e)"
          "loadingErrors c2 = loadingErrors ?c1 + int (failures tr)"
          by blast
        have "stopsAt tr (\<lambda>e. ro = Some (Returned (Some e)))"
          using tr(3) res by (auto intro: stopsAt_mono)
        then show ?thesis using tr res by (intro exI [of _ tr]) simp
      qed
    qed
  qed
qed

lemma bucketsLoop_run:
  "bucketsLoop env md err files (c, w) = (out, c', w') \<Longrightarrow>
   \<exists>tr. calls w' = calls w @ tr \<and> registersAfterOpen tr \<and>
     stopsAt tr (\<lambda>e. out = Returned (Some e)) \<and>
     loadingErrors c' = loadingErrors c + int (failures tr)"
proof (induction files arbitrary: c w)
  case Nil
  then have "c' = c" "w' = w" by simp_all
  then show ?case by (intro exI [of _ "[]"]) simp
next
  case (Cons f files)
  obtain ro c1 w1 where step: "loadBucket env md err f (c, w) = (ro, c1, w1)"
    by (cases "loadBucket env md err f (c, w)")
  from loadBucket_run [OF step] obtain tr1 where tr1: "calls w1 = calls w @ tr1"
    "registersAfterOpen tr1" "stopsAt tr1 (\<lambda>e. ro = Some (Returned (Some e)))"
    "loadingErrors c1 = loadingErrors c + int (failures tr1)"
    by blast
  show ?case
  proof (cases ro)
    case (Some out1)
    then have "out = out1" "c' = c1" "w' = w1" using Cons.prems step by simp_all
    moreover have "stopsAt tr1 (\<lambda>e. out1 = Returned (Some e))"
      using tr1(3) Some by (auto intro: stopsAt_mono)
    ultimately show ?thesis using tr1 by blast
  next
    case None
    then have "bucketsLoop env md err files (c1, w1) = (out, c', w')"
      using Cons.prems step by simp
    from Cons.IH [OF this] obtain tr2 where tr2: "calls w' = calls w1 @ tr2"
      "registersAfterOpen tr2" "stopsAt tr2 (\<lambda>e. out = Returned (Some e))"
      "loadingErrors c' = loadingErrors c1 + int (failures tr2)"
      by blast
    have quiet: "stopsAt tr1 (\<lambda>e. False)" using tr1(3) None by (simp add: stopsAt_def)
    have "calls w' = calls w @ (tr1 @ tr2)" using tr1(1) tr2(1) by simp
    moreover have "registersAfterOpen (tr1 @ tr2)"
      using tr1(2) tr2(2) by (rule registersAfterOpen_append)
    moreover have "stopsAt (tr1 @ tr2) (\<lambda>e. out = Returned (Some e))"
      using quiet tr2(3) by (rule stopsAt_append)
    moreover have "loadingErrors c' = loadingErrors c + int (failures (tr1 @ tr2))"
      using tr1(4) tr2(4) by (simp add: failures_append)
    ultimately show ?thesis by blast
  qed
qed

lemma Start_body_run:
  assumes "Start_body env m w = (out, c, w')"
  shows "\<exists>tr. calls w' = calls w @ tr \<and> registersAfterOpen tr \<and>
     stopsAt tr (\<lambda>e. out = Returned (Some e)) \<and> loadingErrors c = int (failures tr)"
proof (cases "ReadDir env (managerMultitenantDir env (dir m))")
  case (Inl e)
  then have "w' = w" "loadingErrors c = 0"
    using assms by (auto simp: Start_body_def)
  then show ?thesis by (intro exI [of _ "[]"]) simp
next
  case (Inr files)
  then have "bucketsLoop env (managerMultitenantDir env (dir m)) None files
      (\<lparr>buckets = 0, indices = 0, loadingErrors = 0\<rparr>, w) = (out, c, w')"
    using assms by (simp add: Start_body_def)
  from bucketsLoop_run [OF this] show ?thesis by simp
qed

lemma Start_unfold:
  "Start env m w =
     (fst (Start_body env m w),
      Log LevelInfo
        [(''msg'', S ''loaded leftover local indices''),
         (''err'', E (case fst (Start_body env m w) of Returned e \<Rightarrow> e | Panicked \<Rightarrow> None)),
         (''successful'',
          B ((case fst (Start_body env m w) of Returned e \<Rightarrow> e | Panicked \<Rightarrow> None) = None)),
         (''buckets'', N (buckets (fst (snd (Start_body env m w))))),
         (''indices'', N (indices (fst (snd (Start_body env m w))))),
         (''failures'', N (loadingErrors (fst (snd (Start_body env m w)))))]
        (snd (snd (Start_body env m w))))"
  by (simp add: Start_def Let_def split: prod.splits)

subsection \<open>Claims about \<open>Start\<close>\<close>

text \<open>
  A directory whose name does not end in a digit makes the body of the loop panic, so
  \<open>Start\<close> never returns \<open>nil\<close> when the multitenant directory holds one: it panics
  there, unless an \<open>AddIndex\<close> error ended it before.
\<close>

lemma loadBucket_panics:
  "IsDir f \<Longrightarrow> \<not> MatchString (Name f) \<Longrightarrow> loadBucket env md None f cw = (Some Panicked, cw)"
  by (cases cw) (simp add: loadBucket_def)

lemma loadBucket_never_completes:
  "loadBucket env md None f cw = (Some out, cw') \<Longrightarrow> out \<noteq> Returned None"
  by (cases cw)
     (auto simp: loadBucket_def Let_def split: if_splits sum.splits prod.splits option.splits)

lemma bucketsLoop_never_completes:
  "\<exists>f\<in>set files. IsDir f \<and> \<not> MatchString (Name f) \<Longrightarrow>
   fst (bucketsLoop env md None files cw) \<noteq> Returned None"
proof (induction files arbitrary: cw)
  case Nil
  then show ?case by simp
next
  case (Cons f files)
  obtain ro cw1 where step: "loadBucket env md None f cw = (ro, cw1)"
    by (cases "loadBucket env md None f cw")
  show ?case
  proof (cases ro)
    case (Some out)
    then show ?thesis using step loadBucket_never_completes [of env md f cw out cw1] by simp
  next
    case None
    have "\<not> (IsDir f \<and> \<not> MatchString (Name f))"
      using loadBucket_panics [of f env md cw] step None by auto
    then have "\<exists>f\<in>set files. IsDir f \<and> \<not> MatchString (Name f)" using Cons.prems by auto
    from Cons.IH [OF this] show ?thesis using step None by simp
  qed
qed

text \<open>
  Claim C7, that \<open>Start\<close> skips a directory whose name does not end in a digit with a
  warning and goes on without crashing, fails on the code. With the directories
  \<open>17000\<close>, \<open>17001\<close> and \<open>badname\<close> under the multitenant root, \<open>Start\<close>
  registers the index of \<open>17000\<close>, skips the unparsable file of \<open>17001\<close>, and
  panics at \<open>badname\<close>: line 110 calls \<open>Error()\<close> on the named result \<open>err\<close>,
  which is \<open>nil\<close> there. No warning is written; the deferred summary line is the only
  one.
\<close>

theorem Start_bad_directory_name:
  "ReadDir exampleEnv (managerMultitenantDir exampleEnv (dir manager)) =
     Inr [directory ''17000'', directory ''17001'', directory ''badname''] \<and>
   MatchString ''17000'' \<and> MatchString ''17001'' \<and> \<not> MatchString ''badname'' \<and>
   Start exampleEnv manager emptyWorld =
     (Panicked,
      \<lparr>logs =
         [(LevelInfo,
           [(''msg'', S ''loaded leftover local indices''), (''err'', E None),
            (''successful'', B True), (''buckets'', N 2), (''indices'', N 1),
            (''failures'', N 0)])],
       calls =
         [OpenCall (newPrefixedIdentifier \<lparr>id_nodeName = ''ingester-0'', id_ts = 1\<rparr>
                      ''/data/multitenant/17000'' [])
            False
            (TSDBFile (newPrefixedIdentifier \<lparr>id_nodeName = ''ingester-0'', id_ts = 1\<rparr>
                         ''/data/multitenant/17000'' []))
            None,
          AddIndexCall ''17000'' []
            (TSDBFile (newPrefixedIdentifier \<lparr>id_nodeName = ''ingester-0'', id_ts = 1\<rparr>
                         ''/data/multitenant/17000'' []))
            None],
       tsdbCreationsTotal = 0, tsdbCreationFailures = 0\<rparr>)"
  by code_simp


lemma brokenRun:
  "Start brokenEnv manager emptyWorld =
     (Returned (Some (ErrorString ''shipper stopped'')),
      \<lparr>logs =
         [(LevelWarn,
           [(''msg'', S []),
            (''tsdbPath'',
             PathOf (newPrefixedIdentifier \<lparr>id_nodeName = ''ingester-0'', id_ts = 1\<rparr>
                       ''/data/multitenant/17000'' [])),
            (''err'', S ''open failed'')]),
          (LevelInfo,
           [(''msg'', S ''loaded leftover local indices''),
            (''err'', E (Some (ErrorString ''shipper stopped''))), (''successful'', B False),
            (''buckets'', N 1), (''indices'', N 1), (''failures'', N 2)])],
       calls =
         [OpenCall (newPrefixedIdentifier \<lparr>id_nodeName = ''ingester-0'', id_ts = 1\<rparr>
                      ''/data/multitenant/17000'' [])
            False nilFile (Some (ErrorString ''open failed'')),
          AddIndexCall ''17000'' [] nilFile (Some (ErrorString ''shipper stopped''))],
       tsdbCreationsTotal = 0, tsdbCreationFailures = 0\<rparr>)"
  by code_simp

text \<open>
  Claim C8. In every run of \<open>Start\<close>, a \<open>NewShippableTSDBFile\<close> that returned an
  error is followed at once by the \<open>AddIndex\<close> of the file it returned, with the empty
  tenant; an \<open>AddIndex\<close> that returned an error is the last call and its error is the
  result of \<open>Start\<close>; and the failures reported by the summary line are the number of
  calls that returned an error, so each failed construction is counted.
\<close>

theorem Start_registers_after_construction_error:
  assumes "Start env m w = (out, w')"
  shows "(\<forall>pre p readonly f e post.
            newCalls w w' = pre @ OpenCall p readonly f (Some e) # post \<longrightarrow>
            (\<exists>bucket r post'. post = AddIndexCall bucket [] f r # post')) \<and>
         (\<forall>pre bucket tenant f e post.
            newCalls w w' = pre @ AddIndexCall bucket tenant f (Some e) # post \<longrightarrow>
            post = [] \<and> out = Returned (Some e)) \<and>
         (\<exists>err ok b i.
            last (logs w') =
              (LevelInfo,
               [(''msg'', S ''loaded leftover local indices''), (''err'', E err),
                (''successful'', B ok), (''buckets'', N b), (''indices'', N i),
                (''failures'', N (int (failures (newCalls w w'))))]))"
proof -
  obtain out1 c w1 where body: "Start_body env m w = (out1, c, w1)"
    by (cases "Start_body env m w")
  from Start_body_run [OF body] obtain tr where tr: "calls w1 = calls w @ tr"
    "registersAfterOpen tr" "stopsAt tr (\<lambda>e. out1 = Returned (Some e))"
    "loadingErrors c = int (failures tr)"
    by blast
  let ?line = "(LevelInfo,
      [(''msg'', S ''loaded leftover local indices''),
       (''err'', E (case out1 of Returned e \<Rightarrow> e | Panicked \<Rightarrow> None)),
       (''successful'', B ((case out1 of Returned e \<Rightarrow> e | Panicked \<Rightarrow> None) = None)),
       (''buckets'', N (buckets c)), (''indices'', N (indices c)),
       (''failures'', N (loadingErrors c))])"
  have S: "Start env m w = (out1, Log LevelInfo (snd ?line) w1)"
    by (simp add: Start_unfold body)
  have "(out, w') = (out1, Log LevelInfo (snd ?line) w1)"
    using assms S by (rule trans [OF sym])
  then have "out = out1 \<and> w' = Log LevelInfo (snd ?line) w1"
    by (simp only: prod.inject)
  then have res: "out = out1" "w' = Log LevelInfo (snd ?line) w1"
    by blast+
  have new: "newCalls w w' = tr" using res(2) tr(1) by (simp add: newCalls_def)
  have "last (logs w') = ?line" using res(2) by (simp add: Log_def)
  then have line: "\<exists>err ok b i.
      last (logs w') =
        (LevelInfo,
         [(''msg'', S ''loaded leftover local indices''), (''err'', E err),
          (''successful'', B ok), (''buckets'', N b), (''indices'', N i),
          (''failures'', N (int (failures (newCalls w w'))))])"
    using tr(4) new by simp
  show ?thesis
    using tr(2,3) line unfolding new res(1) registersAfterOpen_def stopsAt_def by blast
qed

theorem Start_registers_after_construction_error_witness:
  "fst (Start brokenEnv manager emptyWorld) = Returned (Some (ErrorString ''shipper stopped'')) \<and>
   newCalls emptyWorld (snd (Start brokenEnv manager emptyWorld)) =
     [OpenCall (newPrefixedIdentifier \<lparr>id_nodeName = ''ingester-0'', id_ts = 1\<rparr>
                  ''/data/multitenant/17000'' [])
        False nilFile (Some (ErrorString ''open failed'')),
      AddIndexCall ''17000'' [] nilFile (Some (ErrorString ''shipper stopped''))] \<and>
   failures (newCalls emptyWorld (snd (Start brokenEnv manager emptyWorld))) = 2"
proof -
  let ?open = "OpenCall (newPrefixedIdentifier \<lparr>id_nodeName = ''ingester-0'', id_ts = 1\<rparr>
      ''/data/multitenant/17000'' []) False nilFile (Some (ErrorString ''open failed''))"
  let ?add = "AddIndexCall ''17000'' [] nilFile (Some (ErrorString ''shipper stopped''))"
  obtain out w' where run: "Start brokenEnv manager emptyWorld = (out, w')" by fastforce
  have e: "calls emptyWorld = []" by (simp add: emptyWorld_def)
  have "w' = snd (Start brokenEnv manager emptyWorld)" using run by simp
  then have tr: "newCalls emptyWorld w' = [?open, ?add]"
    by (simp add: brokenRun newCalls_def e)
  from Start_registers_after_construction_error [OF run]
  have stop: "\<forall>pre bucket tenant f e post.
      newCalls emptyWorld w' = pre @ AddIndexCall bucket tenant f (Some e) # post \<longrightarrow>
      post = [] \<and> out = Returned (Some e)"
    by blast
  have "newCalls emptyWorld w' = [?open] @ ?add # []" using tr by simp
  then have "out = Returned (Some (ErrorString ''shipper stopped''))" using stop by blast
  then show ?thesis using run tr by simp
qed

end
